theory Spec2Isabelle
  imports Main "HOL-Library.Word" "HOL-Library.AList"
begin

section \<open>JavaScript values\<close>

text \<open>
  A JavaScript string is a sequence of 16-bit code units. State values are strings;
  \<open>null\<close> and \<open>undefined\<close> are the two other values that \<open>add\<close> and
  \<open>replace\<close> document for their \<open>value\<close> argument. Strict equality \<open>===\<close> on these
  three kinds of value is equality of the datatype.
\<close>

type_synonym char16 = "16 word"
type_synonym jsstring = "char16 list"

definition js :: "string \<Rightarrow> jsstring" where
  "js s = map of_char s"

datatype jsval = Undefined | Null | Str jsstring

datatype error = URIError | TypeError

text \<open>
  A plain object is the list of its own enumerable properties in insertion order, the
  order in which \<open>for ... in\<close> visits them. This is what an engine does for every key
  but three kinds, which are outside the model wherever it reads or writes a property
  through \<open>get_prop\<close> and \<open>set_prop\<close>: a key that is an array index (a canonical
  numeral such as \<open>"2"\<close>), which an engine visits before all other keys, in numeric
  order; a key that names a member of \<open>Object.prototype\<close> (\<open>constructor\<close>,
  \<open>toString\<close>, ...), whose read on an object without such an own property yields the
  inherited member instead of \<open>undefined\<close>; and the key \<open>__proto__\<close>, whose assignment
  goes to an inherited accessor and creates no own property. The last is modelled where
  \<open>parseHash\<close> assigns, see \<open>assign_string\<close>.
\<close>

type_synonym 'v jsobj = "(jsstring \<times> 'v) list"
type_synonym obj = "jsval jsobj"

text \<open>Modelled from the spec: \<open>Y.Object.owns\<close> (\<open>hasOwnProperty\<close>), of the YUI core.\<close>

definition owns :: "'v jsobj \<Rightarrow> jsstring \<Rightarrow> bool" where
  "owns ob key \<longleftrightarrow> map_of ob key \<noteq> None"

text \<open>The property read \<open>ob[key]\<close>: \<open>undefined\<close> for a key the object does not have.\<close>

definition get_prop :: "obj \<Rightarrow> jsstring \<Rightarrow> jsval" where
  "get_prop ob key = (case map_of ob key of None \<Rightarrow> Undefined | Some v \<Rightarrow> v)"

text \<open>The assignment \<open>ob[key] = v\<close>: in place for an existing key, appended otherwise.\<close>

definition set_prop :: "'v jsobj \<Rightarrow> jsstring \<Rightarrow> 'v \<Rightarrow> 'v jsobj" where
  "set_prop ob key v = AList.update key v ob"

text \<open>The statement \<open>delete ob[key]\<close>.\<close>

definition delete_prop :: "'v jsobj \<Rightarrow> jsstring \<Rightarrow> 'v jsobj" where
  "delete_prop ob key = AList.delete key ob"

text \<open>
  Modelled from the spec: \<open>Y.mix(r, s, true)\<close> and \<open>Y.merge(a, b)\<close> of the YUI core, which
  copy every own property of the supplier over the receiver; \<open>merge\<close> starts from a
  fresh object, so its result shares nothing with its arguments.
\<close>

definition mix :: "'v jsobj \<Rightarrow> 'v jsobj \<Rightarrow> 'v jsobj" where
  "mix r s = foldl (\<lambda>r (key, v). set_prop r key v) r s"

definition merge :: "'v jsobj \<Rightarrow> 'v jsobj \<Rightarrow> 'v jsobj" where
  "merge a b = mix (mix [] a) b"

text \<open>Modelled from the spec: \<open>Y.Lang.isValue\<close> of the YUI core, false for \<open>null\<close> and \<open>undefined\<close>.\<close>

fun isValue :: "jsval \<Rightarrow> bool" where
  "isValue Undefined = False"
| "isValue Null = False"
| "isValue (Str s) = True"

text \<open>The conversion \<open>ToString\<close> that the built-in string functions apply to an argument.\<close>

fun toString :: "jsval \<Rightarrow> jsstring" where
  "toString Undefined = js ''undefined''"
| "toString Null = js ''null''"
| "toString (Str s) = s"

section \<open>String built-ins\<close>

text \<open>\<open>s.indexOf(pat)\<close>: the index of the first occurrence, or \<open>-1\<close>.\<close>

fun indexOf :: "jsstring \<Rightarrow> jsstring \<Rightarrow> int" where
  "indexOf [] pat = (if pat = [] then 0 else - 1)"
| "indexOf (c # cs) pat =
     (if take (length pat) (c # cs) = pat then 0
      else (let r = indexOf cs pat in if r < 0 then - 1 else r + 1))"

text \<open>\<open>s.replace(pat, rep)\<close> with a string pattern: the first occurrence only.\<close>

fun replaceFirst :: "jsstring \<Rightarrow> jsstring \<Rightarrow> jsstring \<Rightarrow> jsstring" where
  "replaceFirst [] pat rep = (if pat = [] then rep else [])"
| "replaceFirst (c # cs) pat rep =
     (if take (length pat) (c # cs) = pat then rep @ drop (length pat) (c # cs)
      else c # replaceFirst cs pat rep)"

text \<open>
  \<open>s.replace(/pat/g, rep)\<close> for a pattern that is a fixed non-empty string: every
  occurrence, leftmost first, without overlap. After a match at the head \<open>c\<close> the scan
  resumes behind the match, that is \<open>length pat - 1\<close> code units into the tail.
\<close>

fun replaceAll :: "jsstring \<Rightarrow> jsstring \<Rightarrow> jsstring \<Rightarrow> jsstring" where
  "replaceAll pat rep [] = []"
| "replaceAll pat rep (c # cs) =
     (if pat \<noteq> [] \<and> take (length pat) (c # cs) = pat
      then rep @ replaceAll pat rep (drop (length pat - 1) cs)
      else c # replaceAll pat rep cs)"

text \<open>\<open>s.split(sep)\<close> for a separator of one code unit.\<close>

fun split :: "char16 \<Rightarrow> jsstring \<Rightarrow> jsstring list" where
  "split sep [] = [[]]"
| "split sep (c # cs) =
     (if c = sep then [] # split sep cs
      else (case split sep cs of p # ps \<Rightarrow> (c # p) # ps | [] \<Rightarrow> [[c]]))"

text \<open>\<open>parts.join(sep)\<close>.\<close>

fun join :: "jsstring \<Rightarrow> jsstring list \<Rightarrow> jsstring" where
  "join sep [] = []"
| "join sep [p] = p"
| "join sep (p # q # ps) = p @ sep @ join sep (q # ps)"

text \<open>An array read \<open>xs[i]\<close>; \<open>None\<close> stands for the \<open>undefined\<close> read out of range.\<close>

definition at_index :: "'a list \<Rightarrow> nat \<Rightarrow> 'a option" where
  "at_index xs i = (if i < length xs then Some (xs ! i) else None)"

section \<open>The built-ins \<open>encodeURIComponent\<close> and \<open>decodeURIComponent\<close>\<close>

text \<open>
  Both follow the algorithms \<open>Encode\<close> and \<open>Decode\<close> of ECMA-262: code points are
  written as the \<open>%XX\<close> escapes of their UTF-8 octets, an unpaired surrogate or an
  escape sequence that is not well-formed UTF-8 raises \<open>URIError\<close>.
\<close>

definition uriUnreserved :: "char16 \<Rightarrow> bool" where
  "uriUnreserved c = (let n = unat c in
     (65 \<le> n \<and> n \<le> 90) \<or> (97 \<le> n \<and> n \<le> 122) \<or> (48 \<le> n \<and> n \<le> 57) \<or>
     n = 45 \<or> n = 95 \<or> n = 46 \<or> n = 33 \<or> n = 126 \<or> n = 42 \<or> n = 39 \<or> n = 40 \<or> n = 41)"

definition isLeadSurrogate :: "char16 \<Rightarrow> bool" where
  "isLeadSurrogate c \<longleftrightarrow> 55296 \<le> unat c \<and> unat c \<le> 56319"

definition isTrailSurrogate :: "char16 \<Rightarrow> bool" where
  "isTrailSurrogate c \<longleftrightarrow> 56320 \<le> unat c \<and> unat c \<le> 57343"

definition hexDigit :: "nat \<Rightarrow> char16" where
  "hexDigit d = of_nat (if d < 10 then 48 + d else 55 + d)"

definition hexValue :: "char16 \<Rightarrow> nat option" where
  "hexValue c = (let n = unat c in
     if 48 \<le> n \<and> n \<le> 57 then Some (n - 48)
     else if 65 \<le> n \<and> n \<le> 70 then Some (n - 55)
     else if 97 \<le> n \<and> n \<le> 102 then Some (n - 87)
     else None)"

definition hexByte :: "char16 \<Rightarrow> char16 \<Rightarrow> nat option" where
  "hexByte h l = (case hexValue h of None \<Rightarrow> None
     | Some a \<Rightarrow> (case hexValue l of None \<Rightarrow> None | Some b \<Rightarrow> Some (16 * a + b)))"

definition escape :: "nat \<Rightarrow> jsstring" where
  "escape b = [0x25, hexDigit (b div 16), hexDigit (b mod 16)]"

definition utf8Encode :: "nat \<Rightarrow> nat list" where
  "utf8Encode V =
     (if V < 128 then [V]
      else if V < 2048 then [192 + V div 64, 128 + V mod 64]
      else if V < 65536 then [224 + V div 4096, 128 + (V div 64) mod 64, 128 + V mod 64]
      else [240 + V div 262144, 128 + (V div 4096) mod 64, 128 + (V div 64) mod 64,
            128 + V mod 64])"

definition continuation :: "nat \<Rightarrow> bool" where
  "continuation b \<longleftrightarrow> 128 \<le> b \<and> b < 192"

definition utf8Decode :: "nat list \<Rightarrow> nat option" where
  "utf8Decode octets = (case octets of
       [b0, b1] \<Rightarrow>
         (let V = (b0 - 192) * 64 + (b1 - 128)
          in if 192 \<le> b0 \<and> b0 < 224 \<and> continuation b1 \<and> 128 \<le> V then Some V else None)
     | [b0, b1, b2] \<Rightarrow>
         (let V = (b0 - 224) * 4096 + (b1 - 128) * 64 + (b2 - 128)
          in if 224 \<le> b0 \<and> b0 < 240 \<and> continuation b1 \<and> continuation b2 \<and> 2048 \<le> V \<and>
                \<not> (55296 \<le> V \<and> V \<le> 57343)
             then Some V else None)
     | [b0, b1, b2, b3] \<Rightarrow>
         (let V = (b0 - 240) * 262144 + (b1 - 128) * 4096 + (b2 - 128) * 64 + (b3 - 128)
          in if 240 \<le> b0 \<and> b0 < 248 \<and> continuation b1 \<and> continuation b2 \<and> continuation b3 \<and>
                65536 \<le> V \<and> V \<le> 1114111
             then Some V else None)
     | _ \<Rightarrow> None)"

definition utf16Encode :: "nat \<Rightarrow> jsstring" where
  "utf16Encode V =
     (if V < 65536 then [of_nat V]
      else [of_nat (55296 + (V - 65536) div 1024), of_nat (56320 + (V - 65536) mod 1024)])"

definition prepend :: "jsstring \<Rightarrow> error + jsstring \<Rightarrow> error + jsstring" where
  "prepend S r = (case r of Inl e \<Rightarrow> Inl e | Inr R \<Rightarrow> Inr (S @ R))"

fun encodeURIComponent :: "jsstring \<Rightarrow> error + jsstring" where
  "encodeURIComponent [] = Inr []"
| "encodeURIComponent (c # cs) =
     (if uriUnreserved c then prepend [c] (encodeURIComponent cs)
      else if isTrailSurrogate c then Inl URIError
      else if \<not> isLeadSurrogate c
        then prepend (concat (map escape (utf8Encode (unat c)))) (encodeURIComponent cs)
      else (case cs of
              [] \<Rightarrow> Inl URIError
            | d # ds \<Rightarrow>
                if \<not> isTrailSurrogate d then Inl URIError
                else prepend
                  (concat (map escape (utf8Encode
                     ((unat c - 55296) * 1024 + (unat d - 56320) + 65536))))
                  (encodeURIComponent ds)))"

text \<open>The number of leading 1 bits of an octet; 5 stands for every count above 4.\<close>

definition leadingOnes :: "nat \<Rightarrow> nat" where
  "leadingOnes B =
     (if B < 128 then 0 else if B < 192 then 1 else if B < 224 then 2
      else if B < 240 then 3 else if B < 248 then 4 else 5)"

text \<open>The octets of \<open>n\<close> escapes \<open>%XX\<close> at the front of a string, if they are there.\<close>

fun escapes :: "nat \<Rightarrow> jsstring \<Rightarrow> nat list option" where
  "escapes 0 s = Some []"
| "escapes (Suc n) (p # h # l # s) =
     (if p = 0x25
      then (case hexByte h l of
              None \<Rightarrow> None
            | Some B \<Rightarrow> (case escapes n s of None \<Rightarrow> None | Some Bs \<Rightarrow> Some (B # Bs)))
      else None)"
| "escapes (Suc n) s = None"

fun decodeURIComponent :: "jsstring \<Rightarrow> error + jsstring" where
  "decodeURIComponent [] = Inr []"
| "decodeURIComponent (c # cs) =
     (if c \<noteq> 0x25 then prepend [c] (decodeURIComponent cs)
      else (case cs of
              h # l # rest \<Rightarrow>
                (case hexByte h l of
                   None \<Rightarrow> Inl URIError
                 | Some B \<Rightarrow>
                     if leadingOnes B = 0 then prepend [of_nat B] (decodeURIComponent rest)
                     else if leadingOnes B = 1 \<or> leadingOnes B > 4 then Inl URIError
                     else (case escapes (leadingOnes B - 1) rest of
                             None \<Rightarrow> Inl URIError
                           | Some octets \<Rightarrow>
                               (case utf8Decode (B # octets) of
                                  None \<Rightarrow> Inl URIError
                                | Some V \<Rightarrow>
                                    prepend (utf16Encode V)
                                      (decodeURIComponent
                                         (drop (3 * (leadingOnes B - 1)) rest)))))
            | _ \<Rightarrow> Inl URIError))"

section \<open>The shared environment\<close>

text \<open>
  What the code reads and writes outside its arguments: the state object shared by all
  instances (\<open>YUI.Env.History._state\<close>), the fragment of the page URL (\<open>location.hash\<close>
  without its leading \<open>#\<close>), and the static property \<open>History.hashPrefix\<close>. The browser
  is taken to keep a fragment exactly as it was written. Subscribers of the events are
  outside the model: an event that is fired is recorded, and of what firing does only
  the default function of the global change event is followed.
\<close>

record env =
  GlobalEnv_state :: obj
  fragment :: jsstring
  hashPrefix :: jsstring

datatype src = SRC_ADD | SRC_REPLACE | SRC_HASH

text \<open>The class of the instance a method runs on; \<open>History\<close> extends \<open>HistoryBase\<close>.\<close>

datatype history_class = HistoryBase | History

text \<open>The \<open>{newVal, prevVal}\<close> object stored in \<open>changed\<close> for one key.\<close>

datatype change = Change jsval jsval

text \<open>
  The payload of a fired event: the global change event carries \<open>changed\<close>, \<open>newVal\<close>,
  \<open>prevVal\<close>, \<open>removed\<close> and \<open>src\<close>; a \<open>[key]Change\<close> event \<open>newVal\<close>, \<open>prevVal\<close> and
  \<open>src\<close>; a \<open>[key]Remove\<close> event \<open>prevVal\<close> and \<open>src\<close>.
\<close>

datatype facade =
    StateChange "change jsobj" obj obj obj src
  | ItemChange jsval jsval src
  | ItemRemove jsval src

text \<open>
  What a call does that its caller can observe besides the environment: the events it
  fires, by name, and the calls of \<open>History.setHash\<close> and \<open>History.replaceHash\<close>, each
  with its argument, in the order in which they happen.
\<close>

datatype effect = Fire jsstring facade | SetHash jsstring | ReplaceHash jsstring

text \<open>
  A method returns the exception it raised, if any, the effects up to then and the
  environment it leaves behind.
\<close>

type_synonym outcome = "error option \<times> effect list \<times> env"

section \<open>Static methods of \<open>History\<close>\<close>

text \<open>The two replacements: \<open>replace(/\+/g, ' ')\<close> and \<open>replace(/%20/g, '+')\<close>.\<close>

abbreviation plus_to_space :: "jsstring \<Rightarrow> jsstring" where
  "plus_to_space \<equiv> map (\<lambda>c. if c = 0x2B then 0x20 else c)"

abbreviation pct20_to_plus :: "jsstring \<Rightarrow> jsstring" where
  "pct20_to_plus \<equiv> replaceAll (js ''%20'') (js ''+'')"

text \<open>\<open>History.decode\<close>: \<open>decodeURIComponent(string.replace(/\+/g, ' '))\<close>.\<close>

definition decode :: "jsstring \<Rightarrow> error + jsstring" where
  "decode string = decodeURIComponent (plus_to_space string)"

text \<open>\<open>History.encode\<close>: \<open>encodeURIComponent(string).replace(/%20/g, '+')\<close>.\<close>

definition encode :: "jsstring \<Rightarrow> error + jsstring" where
  "encode string = (case encodeURIComponent string of
       Inl e \<Rightarrow> Inl e
     | Inr s \<Rightarrow> Inr (pct20_to_plus s))"

text \<open>The loop of \<open>History.createHash\<close>, which collects \<open>key=value\<close> for every defined value.\<close>

fun createHash_pairs :: "obj \<Rightarrow> error + jsstring list" where
  "createHash_pairs [] = Inr []"
| "createHash_pairs ((key, v) # params) =
     (if isValue v
      then (case encode key of
              Inl e \<Rightarrow> Inl e
            | Inr k \<Rightarrow>
                (case encode (toString v) of
                   Inl e \<Rightarrow> Inl e
                 | Inr w \<Rightarrow>
                     (case createHash_pairs params of
                        Inl e \<Rightarrow> Inl e
                      | Inr hash \<Rightarrow> Inr ((k @ js ''='' @ w) # hash))))
      else createHash_pairs params)"

definition createHash :: "obj \<Rightarrow> error + jsstring" where
  "createHash params = (case createHash_pairs params of
       Inl e \<Rightarrow> Inl e
     | Inr hash \<Rightarrow> Inr (join (js ''&'') hash))"

text \<open>\<open>History.getHash\<close>: the raw fragment, minus the prefix when it starts with it.\<close>

definition getHash :: "env \<Rightarrow> jsstring" where
  "getHash env = (let hash = fragment env; prefix = hashPrefix env
     in if prefix \<noteq> [] \<and> indexOf hash prefix = 0 then replaceFirst hash prefix [] else hash)"

text \<open>
  The regular expression \<open>_REGEX_HASH\<close>, \<open>/([^\?#&]+)=([^&]+)/g\<close>. A match at the head of a
  string takes the longest first group that still lets the rest match (the group may
  hold \<open>=\<close> itself), then \<open>=\<close>, then every code unit up to the next \<open>&\<close>, at least one.
\<close>

definition keyChar :: "char16 \<Rightarrow> bool" where
  "keyChar c \<longleftrightarrow> c \<noteq> 0x3F \<and> c \<noteq> 0x23 \<and> c \<noteq> 0x26"

definition valChar :: "char16 \<Rightarrow> bool" where
  "valChar c \<longleftrightarrow> c \<noteq> 0x26"

text \<open>Backtracking over the length of the first group, longest first; the result is the whole match.\<close>

fun tryKey :: "nat \<Rightarrow> jsstring \<Rightarrow> jsstring option" where
  "tryKey 0 s = None"
| "tryKey (Suc n) s =
     (case drop (Suc n) s of
        e # v # rest \<Rightarrow>
          if e = 0x3D \<and> valChar v
          then Some (take (Suc (Suc n)) s @ takeWhile valChar (v # rest))
          else tryKey n s
      | _ \<Rightarrow> tryKey n s)"

definition matchAt :: "jsstring \<Rightarrow> jsstring option" where
  "matchAt s = tryKey (length (takeWhile keyChar s)) s"

text \<open>
  \<open>hash.match(_REGEX_HASH)\<close>: all matches from left to right, each search starting where
  the previous match ended (a match has at least three code units, so the tail is
  entered at \<open>length m - 1\<close>); \<open>|| []\<close> turns the \<open>null\<close> of no match into the empty array.
\<close>

fun matchAll :: "jsstring \<Rightarrow> jsstring list" where
  "matchAll [] = []"
| "matchAll (c # cs) =
     (case matchAt (c # cs) of
        Some m \<Rightarrow> m # matchAll (drop (length m - 1) cs)
      | None \<Rightarrow> matchAll cs)"

text \<open>\<open>decode(param[i])\<close>; on a missing element \<open>decode\<close> would call \<open>replace\<close> on \<open>undefined\<close>.\<close>

definition decode_param :: "jsstring option \<Rightarrow> error + jsstring" where
  "decode_param p = (case p of None \<Rightarrow> Inl TypeError | Some string \<Rightarrow> decode string)"

text \<open>
  The assignment \<open>params[key] = value\<close> of \<open>History.parseHash\<close>, whose value is a
  string. The key \<open>__proto__\<close> names the accessor that a plain object inherits from
  \<open>Object.prototype\<close>; its setter ignores a value that is neither an object nor \<open>null\<close>,
  so this assignment creates no property.
\<close>

definition assign_string :: "obj \<Rightarrow> jsstring \<Rightarrow> jsstring \<Rightarrow> obj" where
  "assign_string params key v =
     (if key = js ''__proto__'' then params else set_prop params key (Str v))"

text \<open>The loop of \<open>History.parseHash\<close> over the matches.\<close>

fun parseParams :: "jsstring list \<Rightarrow> obj \<Rightarrow> error + obj" where
  "parseParams [] params = Inr params"
| "parseParams (m # matches) params =
     (let param = split 0x3D m
      in case decode_param (at_index param 0) of
           Inl e \<Rightarrow> Inl e
         | Inr key \<Rightarrow>
             (case decode_param (at_index param 1) of
                Inl e \<Rightarrow> Inl e
              | Inr v \<Rightarrow> parseParams matches (assign_string params key v)))"

text \<open>
  The first step of \<open>History.parseHash\<close>: a prefix that is set is removed where it
  stands at index 0, or at index 1 behind a \<open>#\<close>.
\<close>

definition parseHash_prefix :: "jsstring \<Rightarrow> jsstring \<Rightarrow> jsstring" where
  "parseHash_prefix prefix hash =
     (if prefix \<noteq> []
      then (let prefixIndex = indexOf hash prefix
            in if prefixIndex = 0 \<or> (prefixIndex = 1 \<and> take 1 hash = js ''#'')
               then replaceFirst hash prefix [] else hash)
      else hash)"

text \<open>\<open>History.parseHash(hash)\<close>; \<open>None\<close> is the call without an argument.\<close>

definition parseHash :: "env \<Rightarrow> jsstring option \<Rightarrow> error + obj" where
  "parseHash env hash_arg =
     (let hash = (case hash_arg of Some h \<Rightarrow> h | None \<Rightarrow> getHash env)
      in parseParams (matchAll (parseHash_prefix (hashPrefix env) hash)) [])"

text \<open>
  \<open>History.replaceHash\<close> and \<open>History.setHash\<close> drop a leading \<open>#\<close> of their argument and
  hand the prefix and the rest to the browser, modelled as storing it as the fragment.
\<close>

definition strip_hash :: "jsstring \<Rightarrow> jsstring" where
  "strip_hash hash = (if take 1 hash = js ''#'' then drop 1 hash else hash)"

definition replaceHash :: "jsstring \<Rightarrow> env \<Rightarrow> outcome" where
  "replaceHash hash env =
     (None, [ReplaceHash hash], env\<lparr>fragment := hashPrefix env @ strip_hash hash\<rparr>)"

definition setHash :: "jsstring \<Rightarrow> env \<Rightarrow> outcome" where
  "setHash hash env =
     (None, [SetHash hash], env\<lparr>fragment := hashPrefix env @ strip_hash hash\<rparr>)"

section \<open>\<open>HistoryBase\<close> and \<open>History\<close>\<close>

text \<open>\<open>HistoryBase._storeState\<close>.\<close>

definition HistoryBase_storeState :: "src \<Rightarrow> obj \<Rightarrow> env \<Rightarrow> outcome" where
  "HistoryBase_storeState source newState env = (None, [], env\<lparr>GlobalEnv_state := newState\<rparr>)"

text \<open>
  \<open>History._storeState\<close>: the hash is created first, then the superclass stores the
  state, then the fragment is written if it differs from the new hash.
\<close>

definition History_storeState :: "src \<Rightarrow> obj \<Rightarrow> env \<Rightarrow> outcome" where
  "History_storeState source newState env =
     (case createHash newState of
        Inl e \<Rightarrow> (Some e, [], env)
      | Inr newHash \<Rightarrow>
          (case HistoryBase_storeState source newState env of
             (r, fx, env1) \<Rightarrow>
               if getHash env1 \<noteq> newHash
               then (if source = SRC_REPLACE then replaceHash newHash env1
                     else setHash newHash env1)
               else (None, [], env1)))"

text \<open>The call \<open>this._storeState(src, newState)\<close>, dispatched on the class of \<open>this\<close>.\<close>

fun storeState :: "history_class \<Rightarrow> src \<Rightarrow> obj \<Rightarrow> env \<Rightarrow> outcome" where
  "storeState HistoryBase = HistoryBase_storeState"
| "storeState History = History_storeState"

text \<open>\<open>_fireChangeEvent\<close> and \<open>_fireRemoveEvent\<close>.\<close>

definition fireChangeEvent :: "src \<Rightarrow> jsstring \<Rightarrow> change \<Rightarrow> effect" where
  "fireChangeEvent source key v =
     (case v of Change newVal prevVal \<Rightarrow>
        Fire (key @ js ''Change'') (ItemChange newVal prevVal source))"

definition fireRemoveEvent :: "src \<Rightarrow> jsstring \<Rightarrow> jsval \<Rightarrow> effect" where
  "fireRemoveEvent source key v = Fire (key @ js ''Remove'') (ItemRemove v source)"

text \<open>
  \<open>_fireEvents\<close>. Firing the global change event runs its default function
  \<open>_defChangeFn\<close>, which stores \<open>e.newVal\<close> with \<open>e.src\<close>; the event is published as not
  preventable. The events for the individual items follow. The argument \<open>changes\<close> is
  the object \<open>{changed, newState, prevState, removed}\<close>.
\<close>

definition fireEvents ::
  "history_class \<Rightarrow> src \<Rightarrow> change jsobj \<times> obj \<times> obj \<times> obj \<Rightarrow> env \<Rightarrow> outcome" where
  "fireEvents this source changes env =
     (case changes of (changed, newState, prevState, removed) \<Rightarrow>
        (case storeState this source newState env of
           (Some e, fx, env1) \<Rightarrow>
             (Some e, Fire (js ''change'') (StateChange changed newState prevState removed source) # fx,
              env1)
         | (None, fx, env1) \<Rightarrow>
             (None,
              Fire (js ''change'') (StateChange changed newState prevState removed source) # fx @
              map (\<lambda>(key, v). fireChangeEvent source key v) changed @
              map (\<lambda>(key, v). fireRemoveEvent source key v) removed,
              env1)))"

text \<open>The body of the first \<open>Obj.each\<close> of \<open>_resolveChanges\<close>, over \<open>newState\<close>.\<close>

definition changed_step ::
  "obj \<Rightarrow> change jsobj \<times> bool \<Rightarrow> jsstring \<times> jsval \<Rightarrow> change jsobj \<times> bool" where
  "changed_step prevState acc kv =
     (case acc of (changed, isChanged) \<Rightarrow> case kv of (key, newVal) \<Rightarrow>
        (let prevVal = get_prop prevState key
         in if newVal \<noteq> prevVal
            then (set_prop changed key (Change newVal prevVal), True)
            else (changed, isChanged)))"

text \<open>The body of the second \<open>Obj.each\<close>, over \<open>prevState\<close>; it deletes from \<open>newState\<close>.\<close>

definition removed_step ::
  "obj \<times> obj \<times> bool \<Rightarrow> jsstring \<times> jsval \<Rightarrow> obj \<times> obj \<times> bool" where
  "removed_step acc kv =
     (case acc of (newState, removed, isChanged) \<Rightarrow> case kv of (key, prevVal) \<Rightarrow>
        if \<not> owns newState key \<or> get_prop newState key = Null
        then (delete_prop newState key, set_prop removed key prevVal, True)
        else (newState, removed, isChanged))"

text \<open>\<open>_resolveChanges\<close>.\<close>

definition resolveChanges :: "history_class \<Rightarrow> src \<Rightarrow> obj \<Rightarrow> env \<Rightarrow> outcome" where
  "resolveChanges this source newState env =
     (let prevState = GlobalEnv_state env
      in case foldl (changed_step prevState) ([], False) newState of
           (changed, isChanged) \<Rightarrow>
             (case foldl removed_step (newState, [], isChanged) prevState of
                (newState', removed, isChanged') \<Rightarrow>
                  if isChanged'
                  then fireEvents this source (changed, newState', prevState, removed) env
                  else (None, [], env)))"

text \<open>
  The first argument of \<open>add\<close> and \<open>replace\<close>: the name of a single key, or an object of
  key/value pairs.
\<close>

datatype state_arg = KeyArg jsstring | ObjectArg obj

text \<open>\<open>_change\<close>, the common implementation of \<open>add\<close> and \<open>replace\<close>.\<close>

definition change :: "history_class \<Rightarrow> src \<Rightarrow> state_arg \<Rightarrow> jsval \<Rightarrow> env \<Rightarrow> outcome" where
  "change this source state_or_key v env =
     (let state = (case state_or_key of
                     KeyArg key \<Rightarrow> set_prop [] key v
                   | ObjectArg state \<Rightarrow> state)
      in resolveChanges this source (merge (GlobalEnv_state env) state) env)"

definition add :: "history_class \<Rightarrow> state_arg \<Rightarrow> jsval \<Rightarrow> env \<Rightarrow> outcome" where
  "add this state v env = change this SRC_ADD state v env"

definition replace :: "history_class \<Rightarrow> state_arg \<Rightarrow> jsval \<Rightarrow> env \<Rightarrow> outcome" where
  "replace this state v env = change this SRC_REPLACE state v env"

text \<open>\<open>History._afterHashChange\<close>, the handler of the \<open>hashchange\<close> event.\<close>

definition afterHashChange :: "jsstring \<Rightarrow> env \<Rightarrow> outcome" where
  "afterHashChange newHash env =
     (case parseHash env (Some newHash) of
        Inl e \<Rightarrow> (Some e, [], env)
      | Inr newState \<Rightarrow> resolveChanges History SRC_HASH newState env)"

text \<open>
  A fragment change seen from outside: the notifier fires \<open>hashchange\<close> with
  \<open>newHash = History.getHash()\<close>, read when the change is detected.
\<close>

definition hashchange :: "env \<Rightarrow> outcome" where
  "hashchange env = afterHashChange (getHash env) env"

text \<open>
  What \<open>_resolveChanges\<close> hands to \<open>_fireEvents\<close> when it has gone through its two
  loops: \<open>changed\<close>, \<open>removed\<close>, and \<open>newState\<close> as the deletions of the second loop
  leave it. The flag \<open>isChanged\<close> is set exactly when one of the first two gets an entry.
\<close>

definition changed_of :: "obj \<Rightarrow> obj \<Rightarrow> change jsobj" where
  "changed_of prevState newState = fst (foldl (changed_step prevState) ([], False) newState)"

definition removed_of :: "obj \<Rightarrow> obj \<Rightarrow> obj" where
  "removed_of prevState newState =
     fst (snd (foldl removed_step (newState, [], False) prevState))"

definition stored_of :: "obj \<Rightarrow> obj \<Rightarrow> obj" where
  "stored_of prevState newState = fst (foldl removed_step (newState, [], False) prevState)"

text \<open>The calls of \<open>setHash\<close> and \<open>replaceHash\<close> among the effects of a call.\<close>

fun is_write :: "effect \<Rightarrow> bool" where
  "is_write (Fire name e) = False"
| "is_write (SetHash h) = True"
| "is_write (ReplaceHash h) = True"

definition writes :: "outcome \<Rightarrow> effect list" where
  "writes r = filter is_write (fst (snd r))"

text \<open>An effect with the \<open>src\<close> of its event facade set to a given source.\<close>

fun facade_with_src :: "src \<Rightarrow> facade \<Rightarrow> facade" where
  "facade_with_src s (StateChange changed newVal prevVal removed s0) =
     StateChange changed newVal prevVal removed s"
| "facade_with_src s (ItemChange newVal prevVal s0) = ItemChange newVal prevVal s"
| "facade_with_src s (ItemRemove prevVal s0) = ItemRemove prevVal s"

fun with_src :: "src \<Rightarrow> effect \<Rightarrow> effect" where
  "with_src s (Fire name e) = Fire name (facade_with_src s e)"
| "with_src s (SetHash h) = SetHash h"
| "with_src s (ReplaceHash h) = ReplaceHash h"

text \<open>A string in which some \<open>=\<close> is directly followed by another \<open>=\<close>.\<close>

fun doubled_eq :: "jsstring \<Rightarrow> bool" where
  "doubled_eq (a # b # s) = ((a = 0x3D \<and> b = 0x3D) \<or> doubled_eq (b # s))"
| "doubled_eq s = False"

text \<open>
  A string is well-formed when every surrogate code unit is part of a pair, a lead
  surrogate directly followed by a trail surrogate.
\<close>

fun wellFormed :: "jsstring \<Rightarrow> bool" where
  "wellFormed [] = True"
| "wellFormed (c # cs) =
     (if isTrailSurrogate c then False
      else if isLeadSurrogate c
        then (case cs of [] \<Rightarrow> False | d # ds \<Rightarrow> isTrailSurrogate d \<and> wellFormed ds)
      else wellFormed cs)"

text \<open>A string without any of the code units \<open>=\<close>, \<open>&\<close>, \<open>?\<close> and \<open>#\<close>.\<close>

definition plain :: "jsstring \<Rightarrow> bool" where
  "plain s \<longleftrightarrow> 0x3D \<notin> set s \<and> 0x26 \<notin> set s \<and> 0x3F \<notin> set s \<and> 0x23 \<notin> set s"

text \<open>
  The string \<open>encode(key) + '=' + encode(value)\<close> that \<open>createHash\<close> pushes for a pair:
  both sides are non-empty, hold none of \<open>=&?#\<close>, and decode to the key and the value.
\<close>

definition pair_of :: "jsstring \<Rightarrow> jsstring \<times> jsval \<Rightarrow> bool" where
  "pair_of seg kv \<longleftrightarrow> (\<exists>ek ev w. seg = ek @ 0x3D # ev \<and> snd kv = Str w \<and>
      ek \<noteq> [] \<and> plain ek \<and> ev \<noteq> [] \<and> plain ev \<and>
      decode ek = Inr (fst kv) \<and> decode ev = Inr w)"

section \<open>The state store: \<open>add\<close> and \<open>replace\<close>\<close>

lemmas store_defs = add_def replace_def change_def resolveChanges_def fireEvents_def
  changed_step_def removed_step_def HistoryBase_storeState_def fireChangeEvent_def
  fireRemoveEvent_def merge_def mix_def set_prop_def get_prop_def delete_prop_def owns_def
  Let_def

subsection \<open>The two loops of \<open>_resolveChanges\<close>\<close>

lemma removed_step_pair:
  "removed_step (n, r, c) (key, pv) =
     (if \<not> owns n key \<or> get_prop n key = Null
      then (delete_prop n key, set_prop r key pv, True) else (n, r, c))"
  by (simp add: removed_step_def)

lemma changed_step_pair:
  "changed_step ps (ch, c) (key, nv) =
     (if nv \<noteq> get_prop ps key then (set_prop ch key (Change nv (get_prop ps key)), True)
      else (ch, c))"
  by (simp add: changed_step_def)

lemma removed_step_map_of:
  "foldl removed_step (n, r, c) ps = (n', r', c') \<Longrightarrow>
     map_of n' k = map_of n k \<or> (map_of n' k = None \<and> k \<in> fst ` set ps)"
proof (induction ps arbitrary: n r c)
  case Nil
  then show ?case by simp
next
  case (Cons a ps)
  obtain key pv where a: "a = (key, pv)" by (cases a) auto
  show ?case
  proof (cases "\<not> owns n key \<or> get_prop n key = Null")
    case True
    with Cons.prems a
    have "foldl removed_step (delete_prop n key, set_prop r key pv, True) ps = (n', r', c')"
      by (simp add: removed_step_pair)
    from Cons.IH [OF this]
    show ?thesis
      by (auto simp: delete_prop_def delete_conv' a split: if_splits)
  next
    case False
    with Cons.prems a have "foldl removed_step (n, r, c) ps = (n', r', c')"
      by (simp add: removed_step_pair)
    from Cons.IH [OF this] show ?thesis by auto
  qed
qed

lemma removed_step_flag:
  "foldl removed_step (n, r, c) ps = (n', r', c') \<Longrightarrow> c' \<Longrightarrow> \<not> c \<Longrightarrow>
     \<exists>k \<in> fst ` set ps. map_of n' k = None"
proof (induction ps arbitrary: n r c)
  case Nil
  then show ?case by simp
next
  case (Cons a ps)
  obtain key pv where a: "a = (key, pv)" by (cases a) auto
  show ?case
  proof (cases "\<not> owns n key \<or> get_prop n key = Null")
    case True
    with Cons.prems a
    have f: "foldl removed_step (delete_prop n key, set_prop r key pv, True) ps = (n', r', c')"
      by (simp add: removed_step_pair)
    from removed_step_map_of [OF f, of key]
    have "map_of n' key = None"
      by (auto simp: delete_prop_def delete_conv')
    then show ?thesis by (auto simp: a)
  next
    case False
    with Cons.prems a have "foldl removed_step (n, r, c) ps = (n', r', c')"
      by (simp add: removed_step_pair)
    from Cons.IH [OF this Cons.prems(2,3)] show ?thesis by auto
  qed
qed

lemma changed_step_flag:
  "foldl (changed_step ps) (ch, c) ns = (ch', c') \<Longrightarrow> c' \<Longrightarrow> \<not> c \<Longrightarrow>
     \<exists>(k, nv) \<in> set ns. nv \<noteq> get_prop ps k"
proof (induction ns arbitrary: ch c)
  case Nil
  then show ?case by simp
next
  case (Cons a ns)
  obtain key nv where a: "a = (key, nv)" by (cases a) auto
  show ?case
  proof (cases "nv \<noteq> get_prop ps key")
    case True
    then show ?thesis by (auto simp: a)
  next
    case False
    with Cons.prems a have "foldl (changed_step ps) (ch, c) ns = (ch', c')"
      by (simp add: changed_step_pair)
    from Cons.IH [OF this Cons.prems(2,3)] show ?thesis by auto
  qed
qed

lemma distinct_mix: "distinct (map fst r) \<Longrightarrow> distinct (map fst (mix r s))"
  unfolding mix_def
  by (induction s arbitrary: r) (auto simp: set_prop_def distinct_update)

lemma distinct_merge: "distinct (map fst (merge a b))"
  by (simp add: merge_def distinct_mix)

lemma update_fresh: "k \<notin> fst ` set al \<Longrightarrow> AList.update k v al = al @ [(k, v)]"
  by (induction al) auto

lemma mix_fresh: "distinct (map fst (r @ a)) \<Longrightarrow> mix r a = r @ a"
  unfolding mix_def
proof (induction a arbitrary: r)
  case Nil
  then show ?case by simp
next
  case (Cons kv a)
  obtain k v where kv: "kv = (k, v)" by (cases kv) auto
  from Cons.prems kv have "k \<notin> fst ` set r" by auto
  then have "set_prop r k v = r @ [(k, v)]" by (simp add: set_prop_def update_fresh)
  moreover from Cons.prems kv have "distinct (map fst ((r @ [(k, v)]) @ a))" by simp
  ultimately show ?case using Cons.IH [of "r @ [(k, v)]"] kv by simp
qed

lemma merge_same:
  assumes "distinct (map fst S)" and "map_of S k = Some v"
  shows "merge S (set_prop [] k v) = S"
proof -
  have "mix [] S = S" using mix_fresh [of "[]" S] assms(1) by simp
  then show ?thesis using assms(2) by (simp add: merge_def mix_def set_prop_def update_triv)
qed

lemma changed_step_same:
  "(\<And>k v. (k, v) \<in> set ns \<Longrightarrow> get_prop ps k = v) \<Longrightarrow>
     foldl (changed_step ps) (ch, c) ns = (ch, c)"
proof (induction ns)
  case Nil
  then show ?case by simp
next
  case (Cons kv ns)
  obtain k v where kv: "kv = (k, v)" by (cases kv) auto
  from Cons.prems have "\<And>k v. (k, v) \<in> set ns \<Longrightarrow> get_prop ps k = v" by auto
  from Cons.IH [OF this] have ih: "foldl (changed_step ps) (ch, c) ns = (ch, c)" .
  from Cons.prems [of k v] kv have "get_prop ps k = v" by simp
  with ih kv show ?case by (simp add: changed_step_pair)
qed

lemma removed_step_same:
  "(\<And>k v. (k, v) \<in> set ps \<Longrightarrow> owns n k \<and> get_prop n k \<noteq> Null) \<Longrightarrow>
     foldl removed_step (n, r, c) ps = (n, r, c)"
proof (induction ps)
  case Nil
  then show ?case by simp
next
  case (Cons kv ps)
  obtain k v where kv: "kv = (k, v)" by (cases kv) auto
  from Cons.prems have "\<And>k v. (k, v) \<in> set ps \<Longrightarrow> owns n k \<and> get_prop n k \<noteq> Null"
    by auto
  from Cons.IH [OF this] have ih: "foldl removed_step (n, r, c) ps = (n, r, c)" .
  from Cons.prems [of k v] kv have "owns n k \<and> get_prop n k \<noteq> Null" by simp
  with ih kv show ?case by (simp add: removed_step_pair)
qed

lemma resolveChanges_same_state:
  assumes d: "distinct (map fst S)" and nn: "\<And>k. map_of S k \<noteq> Some Null"
    and st: "GlobalEnv_state env = S"
  shows "resolveChanges this s S env = (None, [], env)"
proof -
  have g: "get_prop S k = v" if "(k, v) \<in> set S" for k v
    using that d by (simp add: get_prop_def)
  have o: "owns S k \<and> get_prop S k \<noteq> Null" if "(k, v) \<in> set S" for k v
    using that d nn [of k] by (simp add: owns_def get_prop_def)
  have 1: "foldl (changed_step S) ([], False) S = ([], False)"
    by (rule changed_step_same) (rule g)
  have 2: "foldl removed_step (S, [], False) S = (S, [], False)"
    by (rule removed_step_same) (rule o)
  show ?thesis by (simp add: resolveChanges_def st 1 2)
qed

lemma removed_step_drops_null:
  "foldl removed_step (n, r, c) ps = (n', r', c') \<Longrightarrow> k \<in> fst ` set ps \<Longrightarrow>
     map_of n' k \<noteq> Some Null"
proof (induction ps arbitrary: n r c)
  case Nil
  then show ?case by simp
next
  case (Cons a ps)
  obtain key pv where a: "a = (key, pv)" by (cases a) auto
  define n1 where "n1 = (if \<not> owns n key \<or> get_prop n key = Null then delete_prop n key else n)"
  obtain r1 c1 where step: "foldl removed_step (n1, r1, c1) ps = (n', r', c')"
    using Cons.prems(1) a by (auto simp: removed_step_pair n1_def split: if_splits)
  show ?case
  proof (cases "k \<in> fst ` set ps")
    case True
    from Cons.IH [OF step True] show ?thesis .
  next
    case False
    with Cons.prems(2) a have k: "k = key" by auto
    have "map_of n1 k \<noteq> Some Null"
      unfolding n1_def k
      by (auto simp: owns_def get_prop_def delete_prop_def delete_conv' split: option.splits)
    with removed_step_map_of [OF step, of k] show ?thesis by auto
  qed
qed

lemma removed_step_keeps_value:
  "foldl removed_step (n, r, c) ps = (n', r', c') \<Longrightarrow> map_of n k = Some v \<Longrightarrow> v \<noteq> Null \<Longrightarrow>
     map_of n' k = Some v"
proof (induction ps arbitrary: n r c)
  case Nil
  then show ?case by simp
next
  case (Cons a ps)
  obtain key pv where a: "a = (key, pv)" by (cases a) auto
  define n1 where "n1 = (if \<not> owns n key \<or> get_prop n key = Null then delete_prop n key else n)"
  obtain r1 c1 where step: "foldl removed_step (n1, r1, c1) ps = (n', r', c')"
    using Cons.prems(1) a by (auto simp: removed_step_pair n1_def split: if_splits)
  have "map_of n1 k = Some v"
    using Cons.prems(2,3) unfolding n1_def
    by (auto simp: owns_def get_prop_def delete_prop_def delete_conv')
  from Cons.IH [OF step this Cons.prems(3)] show ?case .
qed

lemma removed_step_distinct:
  "foldl removed_step (n, r, c) ps = (n', r', c') \<Longrightarrow> distinct (map fst n) \<Longrightarrow>
     distinct (map fst n')"
proof (induction ps arbitrary: n r c)
  case Nil
  then show ?case by simp
next
  case (Cons a ps)
  obtain key pv where a: "a = (key, pv)" by (cases a) auto
  define n1 where "n1 = (if \<not> owns n key \<or> get_prop n key = Null then delete_prop n key else n)"
  obtain r1 c1 where step: "foldl removed_step (n1, r1, c1) ps = (n', r', c')"
    using Cons.prems(1) a by (auto simp: removed_step_pair n1_def split: if_splits)
  have "distinct (map fst n1)"
    using Cons.prems(2) unfolding n1_def by (simp add: delete_prop_def distinct_delete)
  from Cons.IH [OF step this] show ?case .
qed

lemma keys_mix: "fst ` set (mix r s) = fst ` set r \<union> fst ` set s"
  unfolding mix_def
proof (induction s arbitrary: r)
  case Nil
  then show ?case by simp
next
  case (Cons kv s)
  obtain k v where kv: "kv = (k, v)" by (cases kv) auto
  have "fst ` set (set_prop r k v) = insert k (fst ` set r)"
    using dom_update [of k v r] by (simp add: set_prop_def dom_map_of_conv_image_fst)
  with Cons.IH [of "set_prop r k v"] kv show ?case by auto
qed

lemma set_prop_not_Nil: "set_prop ob k v \<noteq> []"
  by (cases ob) (simp_all add: set_prop_def)

lemma changed_step_flag_iff:
  "foldl (changed_step ps) (ch, c) ns = (ch', c') \<Longrightarrow> (c \<longleftrightarrow> ch \<noteq> []) \<Longrightarrow> (c' \<longleftrightarrow> ch' \<noteq> [])"
proof (induction ns arbitrary: ch c)
  case Nil
  then show ?case by auto
next
  case (Cons a ns)
  obtain key nv where a: "a = (key, nv)" by (cases a) auto
  show ?case
  proof (cases "nv \<noteq> get_prop ps key")
    case True
    with Cons.prems(1) a
    have "foldl (changed_step ps) (set_prop ch key (Change nv (get_prop ps key)), True) ns
        = (ch', c')"
      by (simp add: changed_step_pair)
    from Cons.IH [OF this] show ?thesis by (simp add: set_prop_not_Nil)
  next
    case False
    with Cons.prems(1) a have "foldl (changed_step ps) (ch, c) ns = (ch', c')"
      by (simp add: changed_step_pair)
    from Cons.IH [OF this Cons.prems(2)] show ?thesis .
  qed
qed

lemma first_loop:
  "foldl (changed_step ps) ([], False) ns = (changed_of ps ns, changed_of ps ns \<noteq> [])"
proof -
  obtain ch c where l: "foldl (changed_step ps) ([], False) ns = (ch, c)"
    by (cases "foldl (changed_step ps) ([], False) ns") auto
  from changed_step_flag_iff [OF l] have "c \<longleftrightarrow> ch \<noteq> []" by simp
  with l show ?thesis by (simp add: changed_of_def)
qed

lemma removed_step_flag_iff:
  "foldl removed_step (n, r, c) ps = (n', r', c') \<Longrightarrow> (c \<longleftrightarrow> c0 \<or> r \<noteq> []) \<Longrightarrow>
     (c' \<longleftrightarrow> c0 \<or> r' \<noteq> [])"
proof (induction ps arbitrary: n r c)
  case Nil
  then show ?case by auto
next
  case (Cons a ps)
  obtain key pv where a: "a = (key, pv)" by (cases a) auto
  show ?case
  proof (cases "\<not> owns n key \<or> get_prop n key = Null")
    case True
    with Cons.prems(1) a
    have "foldl removed_step (delete_prop n key, set_prop r key pv, True) ps = (n', r', c')"
      by (simp add: removed_step_pair)
    from Cons.IH [OF this] show ?thesis by (simp add: set_prop_not_Nil)
  next
    case False
    with Cons.prems(1) a have "foldl removed_step (n, r, c) ps = (n', r', c')"
      by (simp add: removed_step_pair)
    from Cons.IH [OF this Cons.prems(2)] show ?thesis .
  qed
qed

lemma removed_step_any_flag:
  "fst (foldl removed_step (n, r, c) ps) = fst (foldl removed_step (n, r, False) ps) \<and>
   fst (snd (foldl removed_step (n, r, c) ps)) = fst (snd (foldl removed_step (n, r, False) ps))"
proof (induction ps arbitrary: n r c)
  case Nil
  then show ?case by simp
next
  case (Cons a ps)
  obtain key pv where a: "a = (key, pv)" by (cases a) auto
  show ?case
  proof (cases "\<not> owns n key \<or> get_prop n key = Null")
    case True
    with a Cons.IH [of "delete_prop n key" "set_prop r key pv" True]
    show ?thesis by (simp add: removed_step_pair)
  next
    case False
    with a Cons.IH [of n r c] show ?thesis by (simp add: removed_step_pair)
  qed
qed

lemma second_loop:
  "foldl removed_step (ns, [], c) ps = (stored_of ps ns, removed_of ps ns, c \<or> removed_of ps ns \<noteq> [])"
proof -
  obtain n' r' c' where l: "foldl removed_step (ns, [], c) ps = (n', r', c')"
    by (cases "foldl removed_step (ns, [], c) ps") auto
  from removed_step_flag_iff [OF l, of c] have "c' \<longleftrightarrow> c \<or> r' \<noteq> []" by simp
  moreover from removed_step_any_flag [of ns "[]" c ps] l
  have "n' = stored_of ps ns" "r' = removed_of ps ns"
    by (simp_all add: stored_of_def removed_of_def)
  ultimately show ?thesis using l by simp
qed

lemma resolveChanges_explicit:
  "resolveChanges this source ns env =
     (if changed_of (GlobalEnv_state env) ns = [] \<and> removed_of (GlobalEnv_state env) ns = []
      then (None, [], env)
      else fireEvents this source
             (changed_of (GlobalEnv_state env) ns, stored_of (GlobalEnv_state env) ns,
              GlobalEnv_state env, removed_of (GlobalEnv_state env) ns) env)"
  by (simp add: resolveChanges_def first_loop second_loop Let_def)

lemma change_explicit:
  "change this source state v env =
     resolveChanges this source
       (merge (GlobalEnv_state env)
          (case state of KeyArg key \<Rightarrow> set_prop [] key v | ObjectArg st \<Rightarrow> st)) env"
  by (simp add: change_def)

subsection \<open>Nulled keys\<close>

text \<open>
  C1. With the state \<open>{a: "1", b: "2"}\<close>, \<open>add({a: null, c: "3"})\<close> gives
  \<open>removed = {a: "1"}\<close> and stores \<open>{b: "2", c: "3"}\<close>, but \<open>changed\<close> is not just
  \<open>{c: {newVal: "3", prevVal: undefined}}\<close>: the first loop of \<open>_resolveChanges\<close> compares
  every key of the merged state, the nulled key \<open>a\<close> included, so \<open>changed\<close> also holds
  \<open>a: {newVal: null, prevVal: "1"}\<close> and an \<open>aChange\<close> event is fired before \<open>aRemove\<close>.
\<close>

theorem add_scenario_B_changed_holds_nulled_key:
  "add HistoryBase (ObjectArg [(js ''a'', Null), (js ''c'', Str (js ''3''))]) Undefined
     \<lparr>GlobalEnv_state = [(js ''a'', Str (js ''1'')), (js ''b'', Str (js ''2''))],
      fragment = f, hashPrefix = p\<rparr>
   = (None,
      [Fire (js ''change'')
         (StateChange
            [(js ''a'', Change Null (Str (js ''1''))),
             (js ''c'', Change (Str (js ''3'')) Undefined)]
            [(js ''b'', Str (js ''2'')), (js ''c'', Str (js ''3''))]
            [(js ''a'', Str (js ''1'')), (js ''b'', Str (js ''2''))]
            [(js ''a'', Str (js ''1''))]
            SRC_ADD),
       Fire (js ''aChange'') (ItemChange Null (Str (js ''1'')) SRC_ADD),
       Fire (js ''cChange'') (ItemChange (Str (js ''3'')) Undefined SRC_ADD),
       Fire (js ''aRemove'') (ItemRemove (Str (js ''1'')) SRC_ADD)],
      \<lparr>GlobalEnv_state = [(js ''b'', Str (js ''2'')), (js ''c'', Str (js ''3''))],
       fragment = f, hashPrefix = p\<rparr>)"
  by (simp add: store_defs js_def)

text \<open>
  C2. The stored state can bind a key to \<open>null\<close> or \<open>undefined\<close>: on the empty state
  \<open>add(k, null)\<close> stores \<open>{k: null}\<close>, because the second loop of \<open>_resolveChanges\<close>
  deletes only keys of the previous state; and on \<open>{k: v}\<close>, \<open>add(k, undefined)\<close> stores
  \<open>{k: undefined}\<close>, because that loop tests \<open>=== null\<close> only.
\<close>

theorem add_stores_null_and_undefined:
  "add HistoryBase (KeyArg k) Null \<lparr>GlobalEnv_state = [], fragment = f, hashPrefix = p\<rparr>
     = (None,
        [Fire (js ''change'')
           (StateChange [(k, Change Null Undefined)] [(k, Null)] [] [] SRC_ADD),
         Fire (k @ js ''Change'') (ItemChange Null Undefined SRC_ADD)],
        \<lparr>GlobalEnv_state = [(k, Null)], fragment = f, hashPrefix = p\<rparr>)
   \<and> add HistoryBase (KeyArg k) Undefined
        \<lparr>GlobalEnv_state = [(k, Str v)], fragment = f, hashPrefix = p\<rparr>
     = (None,
        [Fire (js ''change'')
           (StateChange [(k, Change Undefined (Str v))] [(k, Undefined)] [(k, Str v)] []
              SRC_ADD),
         Fire (k @ js ''Change'') (ItemChange Undefined (Str v) SRC_ADD)],
        \<lparr>GlobalEnv_state = [(k, Undefined)], fragment = f, hashPrefix = p\<rparr>)"
  by (simp add: store_defs)

text \<open>
  On every state without \<open>null\<close> values, \<open>add(k, null)\<close> for a key \<open>k\<close> that the state
  does not have fires the global change event and \<open>[k]Change\<close>, and stores \<open>k: null\<close>.
\<close>

lemma add_null_for_absent_key:
  assumes d: "distinct (map fst S)" and nn: "\<And>x. map_of S x \<noteq> Some Null"
    and k: "map_of S k = None" and st: "GlobalEnv_state env = S"
  shows "add HistoryBase (KeyArg k) Null env =
     (None,
      [Fire (js ''change'')
         (StateChange [(k, Change Null Undefined)] (S @ [(k, Null)]) S [] SRC_ADD),
       Fire (k @ js ''Change'') (ItemChange Null Undefined SRC_ADD)],
      env\<lparr>GlobalEnv_state := S @ [(k, Null)]\<rparr>)"
proof -
  from k have fresh: "k \<notin> fst ` set S" by (simp add: map_of_eq_None_iff)
  have "mix [] S = S" using mix_fresh [of "[]" S] d by simp
  then have ns: "merge S (set_prop [] k Null) = S @ [(k, Null)]"
    using fresh by (simp add: merge_def mix_def set_prop_def update_fresh)
  have g: "get_prop S x = v" if "(x, v) \<in> set S" for x v
    using that d by (simp add: get_prop_def)
  have "foldl (changed_step S) ([], False) S = ([], False)"
    by (rule changed_step_same) (rule g)
  then have 1: "foldl (changed_step S) ([], False) (S @ [(k, Null)]) =
      ([(k, Change Null Undefined)], True)"
    using k by (simp add: changed_step_pair get_prop_def set_prop_def)
  have o: "owns (S @ [(k, Null)]) x \<and> get_prop (S @ [(k, Null)]) x \<noteq> Null"
    if "(x, v) \<in> set S" for x v
  proof -
    from that d have "map_of S x = Some v" by simp
    moreover from this nn [of x] have "v \<noteq> Null" by auto
    ultimately show ?thesis by (simp add: owns_def get_prop_def map_add_Some_iff)
  qed
  have 2: "foldl removed_step (S @ [(k, Null)], [], True) S = (S @ [(k, Null)], [], True)"
    by (rule removed_step_same) (rule o)
  have "resolveChanges HistoryBase SRC_ADD (S @ [(k, Null)]) env =
      fireEvents HistoryBase SRC_ADD ([(k, Change Null Undefined)], S @ [(k, Null)], S, []) env"
    unfolding resolveChanges_def Let_def st 1 by (simp add: 2)
  then show ?thesis
    by (simp add: add_def change_def ns st fireEvents_def HistoryBase_storeState_def
          fireChangeEvent_def)
qed

text \<open>
  C3. Removing a key that the state does not have puts nothing into \<open>removed\<close>, but it
  is not silent: with the state \<open>{b: "2"}\<close>, \<open>add("k", null)\<close> fires the global change
  event with \<open>changed = {k: {newVal: null, prevVal: undefined}}\<close> and the event
  \<open>kChange\<close>, and stores \<open>k: null\<close>.
\<close>

theorem add_null_for_absent_key_fires:
  "add HistoryBase (KeyArg (js ''k'')) Null
     \<lparr>GlobalEnv_state = [(js ''b'', Str (js ''2''))], fragment = f, hashPrefix = p\<rparr>
   = (None,
      [Fire (js ''change'')
         (StateChange [(js ''k'', Change Null Undefined)]
            [(js ''b'', Str (js ''2'')), (js ''k'', Null)]
            [(js ''b'', Str (js ''2''))] [] SRC_ADD),
       Fire (js ''kChange'') (ItemChange Null Undefined SRC_ADD)],
      \<lparr>GlobalEnv_state = [(js ''b'', Str (js ''2'')), (js ''k'', Null)],
       fragment = f, hashPrefix = p\<rparr>)"
  by (simp add: store_defs js_def)

text \<open>
  For a value other than \<open>null\<close> the second of two identical calls of \<open>add\<close> on a
  \<open>HistoryBase\<close> does nothing, whatever the state was before the first.
\<close>

lemma add_same_value_twice:
  assumes v: "v \<noteq> Null"
  shows "add HistoryBase (KeyArg k) v (snd (snd (add HistoryBase (KeyArg k) v env))) =
     (None, [], snd (snd (add HistoryBase (KeyArg k) v env)))"
proof -
  define S where "S = GlobalEnv_state env"
  define ns where "ns = merge S (set_prop [] k v)"
  obtain ch c1 where l1: "foldl (changed_step S) ([], False) ns = (ch, c1)"
    by (cases "foldl (changed_step S) ([], False) ns") auto
  obtain ns' rm c2 where l2: "foldl removed_step (ns, [], c1) S = (ns', rm, c2)"
    by (cases "foldl removed_step (ns, [], c1) S") auto
  have first: "add HistoryBase (KeyArg k) v env =
      (if c2 then fireEvents HistoryBase SRC_ADD (ch, ns', S, rm) env else (None, [], env))"
    using l1 l2 by (simp add: add_def change_def resolveChanges_def ns_def S_def)
  show ?thesis
  proof (cases c2)
    case False
    with first show ?thesis by simp
  next
    case True
    define env1 where "env1 = env\<lparr>GlobalEnv_state := ns'\<rparr>"
    from first True have e1: "snd (snd (add HistoryBase (KeyArg k) v env)) = env1"
      by (simp add: fireEvents_def HistoryBase_storeState_def env1_def)
    have dn: "distinct (map fst ns)" by (simp add: ns_def distinct_merge)
    have kv: "map_of ns k = Some v"
      by (simp add: ns_def merge_def mix_def set_prop_def update_conv')
    have keys: "fst ` set ns = insert k (fst ` set S)"
      by (auto simp: ns_def merge_def keys_mix set_prop_def)
    have d': "distinct (map fst ns')" using removed_step_distinct [OF l2 dn] .
    have kv': "map_of ns' k = Some v" using removed_step_keeps_value [OF l2 kv v] .
    have nn: "map_of ns' x \<noteq> Some Null" for x
    proof (cases "x \<in> fst ` set S")
      case True
      from removed_step_drops_null [OF l2 True] show ?thesis .
    next
      case False
      show ?thesis
      proof (cases "x = k")
        case True
        with kv' v show ?thesis by simp
      next
        case xk: False
        with False keys have "x \<notin> fst ` set ns" by simp
        then have "map_of ns x = None" by (simp add: map_of_eq_None_iff)
        with removed_step_map_of [OF l2, of x] show ?thesis by auto
      qed
    qed
    have "add HistoryBase (KeyArg k) v env1 = resolveChanges HistoryBase SRC_ADD ns' env1"
      using merge_same [OF d' kv'] by (simp add: add_def change_def env1_def)
    also have "\<dots> = (None, [], env1)"
      by (rule resolveChanges_same_state [OF d' nn]) (simp add: env1_def)
    finally show ?thesis unfolding e1 .
  qed
qed

text \<open>
  C5. A second \<open>add(k, v)\<close> with the same value is not always silent: for \<open>v = null\<close> on
  the empty state the first call stores \<open>{k: null}\<close>, and the second call, though its
  candidate state is identical to the stored one, fires the global change event with
  \<open>removed = {k: null}\<close> and the event \<open>kRemove\<close>.
\<close>

theorem add_null_twice_fires_again:
  "add HistoryBase (KeyArg k) Null
     (snd (snd (add HistoryBase (KeyArg k) Null
        \<lparr>GlobalEnv_state = [], fragment = f, hashPrefix = p\<rparr>)))
     = (None,
        [Fire (js ''change'') (StateChange [] [] [(k, Null)] [(k, Null)] SRC_ADD),
         Fire (k @ js ''Remove'') (ItemRemove Null SRC_ADD)],
        \<lparr>GlobalEnv_state = [], fragment = f, hashPrefix = p\<rparr>)"
  by (simp add: store_defs)

subsection \<open>\<open>replace\<close> against \<open>add\<close>\<close>

lemma item_events_with_src:
  "with_src s' (fireChangeEvent s key c) = fireChangeEvent s' key c"
  "with_src s' (fireRemoveEvent s key v) = fireRemoveEvent s' key v"
  by (simp_all add: fireChangeEvent_def fireRemoveEvent_def split: change.splits)

text \<open>
  C4. \<open>replace\<close> runs the pipeline of \<open>add\<close>. Both merge their argument into the stored
  state and diff the result against the stored state with the two loops of
  \<open>_resolveChanges\<close>. When neither \<open>changed\<close> nor \<open>removed\<close> got an entry, both do nothing
  more. Otherwise both fire the global change event, whose default function stores the
  new state, then a \<open>[key]Change\<close> event for every entry of \<open>changed\<close>, then a
  \<open>[key]Remove\<close> event for every entry of \<open>removed\<close>. The source is the only difference:
  \<open>add\<close> hands on \<open>add\<close> and \<open>replace\<close> hands on \<open>replace\<close>, to every event and to
  \<open>_storeState\<close>. On a \<open>HistoryBase\<close>, where \<open>_storeState\<close> only stores, the events are all
  the effects, and those of \<open>replace\<close> are those of \<open>add\<close> with the source exchanged; on
  either class, what \<open>this._storeState(src, newState)\<close> does stands between the global
  event and the events of the items. (The comment above \<open>replace\<close> says that no change
  events are generated; the code generates them.)
\<close>

theorem replace_runs_the_pipeline_of_add:
  "(let prevState = GlobalEnv_state env;
        newState = merge prevState
                     (case state of KeyArg key \<Rightarrow> set_prop [] key v | ObjectArg st \<Rightarrow> st);
        changed = changed_of prevState newState;
        removed = removed_of prevState newState;
        stored = stored_of prevState newState;
        run = (\<lambda>source.
          if changed = [] \<and> removed = [] then (None, [], env)
          else (None,
                Fire (js ''change'') (StateChange changed stored prevState removed source) #
                map (\<lambda>(key, c). fireChangeEvent source key c) changed @
                map (\<lambda>(key, pv). fireRemoveEvent source key pv) removed,
                env\<lparr>GlobalEnv_state := stored\<rparr>));
        run_on = (\<lambda>this source.
          if changed = [] \<and> removed = [] then (None, [], env)
          else (case storeState this source stored env of
                  (None, fx, env') \<Rightarrow>
                    (None,
                     Fire (js ''change'') (StateChange changed stored prevState removed source) #
                     fx @
                     map (\<lambda>(key, c). fireChangeEvent source key c) changed @
                     map (\<lambda>(key, pv). fireRemoveEvent source key pv) removed,
                     env')
                | (Some e, fx, env') \<Rightarrow>
                    (Some e,
                     Fire (js ''change'') (StateChange changed stored prevState removed source) #
                     fx,
                     env')))
    in add HistoryBase state v env = run SRC_ADD \<and>
       replace HistoryBase state v env = run SRC_REPLACE \<and>
       add this state v env = run_on this SRC_ADD \<and>
       replace this state v env = run_on this SRC_REPLACE) \<and>
   replace HistoryBase state v env =
     (fst (add HistoryBase state v env),
      map (with_src SRC_REPLACE) (fst (snd (add HistoryBase state v env))),
      snd (snd (add HistoryBase state v env))) \<and>
   map (with_src SRC_ADD) (fst (snd (add HistoryBase state v env))) =
     fst (snd (add HistoryBase state v env))"
  by (simp add: add_def replace_def change_explicit resolveChanges_explicit fireEvents_def
        HistoryBase_storeState_def Let_def item_events_with_src
        split: prod.splits option.splits)

theorem replace_runs_the_pipeline_of_add_witness:
  "replace HistoryBase (KeyArg (js ''a'')) (Str (js ''1''))
     \<lparr>GlobalEnv_state = [(js ''b'', Str (js ''2''))], fragment = [], hashPrefix = []\<rparr>
   = (None,
      [Fire (js ''change'')
         (StateChange [(js ''a'', Change (Str (js ''1'')) Undefined)]
            [(js ''b'', Str (js ''2'')), (js ''a'', Str (js ''1''))]
            [(js ''b'', Str (js ''2''))] [] SRC_REPLACE),
       Fire (js ''aChange'') (ItemChange (Str (js ''1'')) Undefined SRC_REPLACE)],
      \<lparr>GlobalEnv_state = [(js ''b'', Str (js ''2'')), (js ''a'', Str (js ''1''))],
        fragment = [], hashPrefix = []\<rparr>)"
proof -
  let ?env = "\<lparr>GlobalEnv_state = [(js ''b'', Str (js ''2''))], fragment = [], hashPrefix = []\<rparr>"
  have a: "add HistoryBase (KeyArg (js ''a'')) (Str (js ''1'')) ?env
   = (None,
      [Fire (js ''change'')
         (StateChange [(js ''a'', Change (Str (js ''1'')) Undefined)]
            [(js ''b'', Str (js ''2'')), (js ''a'', Str (js ''1''))]
            [(js ''b'', Str (js ''2''))] [] SRC_ADD),
       Fire (js ''aChange'') (ItemChange (Str (js ''1'')) Undefined SRC_ADD)],
      \<lparr>GlobalEnv_state = [(js ''b'', Str (js ''2'')), (js ''a'', Str (js ''1''))],
        fragment = [], hashPrefix = []\<rparr>)"
    by code_simp
  from replace_runs_the_pipeline_of_add
    [where env = ?env and state = "KeyArg (js ''a'')" and v = "Str (js ''1'')"]
  have "replace HistoryBase (KeyArg (js ''a'')) (Str (js ''1'')) ?env =
     (fst (add HistoryBase (KeyArg (js ''a'')) (Str (js ''1'')) ?env),
      map (with_src SRC_REPLACE) (fst (snd (add HistoryBase (KeyArg (js ''a'')) (Str (js ''1'')) ?env))),
      snd (snd (add HistoryBase (KeyArg (js ''a'')) (Str (js ''1'')) ?env)))"
    by blast
  then show ?thesis unfolding a by simp
qed

subsection \<open>A change that is detected changes the stored state\<close>

lemma resolved_state_differs:
  assumes d: "distinct (map fst ns)"
    and l1: "foldl (changed_step ps) ([], False) ns = (ch, c1)"
    and l2: "foldl removed_step (ns, [], c1) ps = (ns', rm, c2)"
    and c2: "c2"
  shows "ns' \<noteq> ps"
proof (cases c1)
  case True
  from changed_step_flag [OF l1 True] obtain k nv
    where kv: "(k, nv) \<in> set ns" "nv \<noteq> get_prop ps k" by auto
  from d kv(1) have m: "map_of ns k = Some nv" by simp
  from removed_step_map_of [OF l2, of k] m
  consider "map_of ns' k = Some nv" | "map_of ns' k = None" "k \<in> fst ` set ps" by auto
  then show ?thesis
  proof cases
    case 1
    with kv(2) show ?thesis by (auto simp: get_prop_def)
  next
    case 2
    then show ?thesis by (auto simp: map_of_eq_None_iff)
  qed
next
  case False
  from removed_step_flag [OF l2 c2 False] show ?thesis
    by (auto simp: map_of_eq_None_iff)
qed

lemma History_storeState_state:
  "History_storeState s ns env = (None, fx, env') \<Longrightarrow> GlobalEnv_state env' = ns"
  by (auto simp: History_storeState_def HistoryBase_storeState_def setHash_def replaceHash_def
      split: sum.splits if_splits)

lemma History_storeState_error:
  "History_storeState s ns env = (Some e, fx, env') \<Longrightarrow> fx = [] \<and> env' = env"
  by (auto simp: History_storeState_def HistoryBase_storeState_def setHash_def replaceHash_def
      split: sum.splits if_splits)

lemma filter_is_write_items:
  "filter is_write (map (\<lambda>(key, v). fireChangeEvent s key v) cs) = []"
  "filter is_write (map (\<lambda>(key, v). fireRemoveEvent s key v) rs) = []"
  by (induction cs) (auto simp: fireChangeEvent_def fireRemoveEvent_def split: change.splits,
      induction rs, auto simp: fireChangeEvent_def fireRemoveEvent_def split: change.splits)

lemma change_same_state_no_write:
  assumes same: "GlobalEnv_state (snd (snd (change History s st v env))) = GlobalEnv_state env"
  shows "writes (change History s st v env) = []"
proof -
  define ns where "ns = merge (GlobalEnv_state env)
      (case st of KeyArg key \<Rightarrow> set_prop [] key v | ObjectArg st' \<Rightarrow> st')"
  define ps where "ps = GlobalEnv_state env"
  obtain ch c1 where l1: "foldl (changed_step ps) ([], False) ns = (ch, c1)"
    by (cases "foldl (changed_step ps) ([], False) ns") auto
  obtain ns' rm c2 where l2: "foldl removed_step (ns, [], c1) ps = (ns', rm, c2)"
    by (cases "foldl removed_step (ns, [], c1) ps") auto
  have r: "change History s st v env =
      (if c2 then fireEvents History s (ch, ns', ps, rm) env else (None, [], env))"
    using l1 l2 by (simp add: change_def resolveChanges_def Let_def ns_def ps_def)
  show ?thesis
  proof (cases c2)
    case False
    with r show ?thesis by (simp add: writes_def)
  next
    case True
    have d: "distinct (map fst ns)" by (simp add: ns_def distinct_merge)
    from resolved_state_differs [OF d l1 l2 True] have neq: "ns' \<noteq> ps" .
    obtain e fx env' where st: "History_storeState s ns' env = (e, fx, env')"
      by (cases "History_storeState s ns' env") auto
    show ?thesis
    proof (cases e)
      case None
      with st History_storeState_state have "GlobalEnv_state env' = ns'" by blast
      moreover from r True st None have "snd (snd (change History s st v env)) = env'"
        by (simp add: fireEvents_def)
      ultimately show ?thesis using same neq by (simp add: ps_def)
    next
      case (Some err)
      with st History_storeState_error have "fx = []" by blast
      with r True st Some show ?thesis by (simp add: fireEvents_def writes_def)
    qed
  qed
qed


section \<open>The hash-backed store\<close>

lemma History_storeState_explicit:
  "History_storeState source newState env =
     (case createHash newState of
        Inl e \<Rightarrow> (Some e, [], env)
      | Inr newHash \<Rightarrow>
          if getHash env = newHash then (None, [], env\<lparr>GlobalEnv_state := newState\<rparr>)
          else (None, [if source = SRC_REPLACE then ReplaceHash newHash else SetHash newHash],
                env\<lparr>GlobalEnv_state := newState,
                    fragment := hashPrefix env @ strip_hash newHash\<rparr>))"
  by (simp add: History_storeState_def HistoryBase_storeState_def setHash_def replaceHash_def
      getHash_def split: sum.splits)

lemma fireEvents_History_explicit:
  "fireEvents History source (changed, stored, prevState, removed) env =
     (case createHash stored of
        Inl e \<Rightarrow>
          (Some e, [Fire (js ''change'') (StateChange changed stored prevState removed source)],
           env)
      | Inr newHash \<Rightarrow>
          (None,
           Fire (js ''change'') (StateChange changed stored prevState removed source) #
           (if getHash env = newHash then []
            else [if source = SRC_REPLACE then ReplaceHash newHash else SetHash newHash]) @
           map (\<lambda>(key, c). fireChangeEvent source key c) changed @
           map (\<lambda>(key, pv). fireRemoveEvent source key pv) removed,
           env\<lparr>GlobalEnv_state := stored,
               fragment := (if getHash env = newHash then fragment env
                            else hashPrefix env @ strip_hash newHash)\<rparr>))"
  by (simp add: fireEvents_def History_storeState_explicit split: sum.splits)

text \<open>
  C7, as stated, fails: \<open>History._storeState\<close> creates the hash before anything else,
  and \<open>createHash\<close> raises \<open>URIError\<close> when a key or a value of the new state holds an
  unpaired surrogate. With \<open>add("\uD800", "1")\<close> on the empty state the global change
  event is fired and the exception leaves \<open>_storeState\<close>: nothing is compared, the state
  is not stored, and \<open>setHash\<close> is not called although no hash equal to the fragment was
  found.
\<close>

theorem History_add_unencodable_state_counterexample:
  "add History (KeyArg [0xD800]) (Str (js ''1''))
     \<lparr>GlobalEnv_state = [], fragment = [], hashPrefix = []\<rparr>
   = (Some URIError,
      [Fire (js ''change'')
         (StateChange [([0xD800], Change (Str (js ''1'')) Undefined)]
            [([0xD800], Str (js ''1''))] [] [] SRC_ADD)],
      \<lparr>GlobalEnv_state = [], fragment = [], hashPrefix = []\<rparr>)"
  by (simp add: store_defs History_storeState_def createHash_def encode_def uriUnreserved_def
        isTrailSurrogate_def isLeadSurrogate_def)

text \<open>
  C7, amended. \<open>History._storeState\<close> encodes the new state first. If that raises,
  nothing is stored or written. Otherwise the new hash is compared with the fragment as
  \<open>getHash\<close> reads it: if the two are identical, the state is stored and nothing is
  written; if not, the state is stored and \<open>replaceHash\<close> is called for the source
  \<open>replace\<close>, \<open>setHash\<close> for the source \<open>add\<close>, once, with the new hash. This is what
  \<open>add\<close> and \<open>replace\<close> on a \<open>History\<close> do with the state that their merge and diff
  leave, between the global change event and the events of the items, whenever the diff
  finds a change. A \<open>replace\<close> that leaves the stored state as it was (such as the second
  of two identical calls) writes nothing.
\<close>

theorem History_store_compares_then_writes:
  "History_storeState source ns env =
     (case createHash ns of
        Inl e \<Rightarrow> (Some e, [], env)
      | Inr newHash \<Rightarrow>
          if getHash env = newHash then (None, [], env\<lparr>GlobalEnv_state := ns\<rparr>)
          else (None, [if source = SRC_REPLACE then ReplaceHash newHash else SetHash newHash],
                env\<lparr>GlobalEnv_state := ns,
                    fragment := hashPrefix env @ strip_hash newHash\<rparr>)) \<and>
   (let prevState = GlobalEnv_state env;
        newState = merge prevState
                     (case state of KeyArg key \<Rightarrow> set_prop [] key v | ObjectArg st \<Rightarrow> st);
        changed = changed_of prevState newState;
        removed = removed_of prevState newState;
        stored = stored_of prevState newState;
        run = (\<lambda>source write.
          if changed = [] \<and> removed = [] then (None, [], env)
          else (case createHash stored of
                  Inl e \<Rightarrow>
                    (Some e,
                     [Fire (js ''change'') (StateChange changed stored prevState removed source)],
                     env)
                | Inr newHash \<Rightarrow>
                    (None,
                     Fire (js ''change'') (StateChange changed stored prevState removed source) #
                     (if getHash env = newHash then [] else [write newHash]) @
                     map (\<lambda>(key, c). fireChangeEvent source key c) changed @
                     map (\<lambda>(key, pv). fireRemoveEvent source key pv) removed,
                     env\<lparr>GlobalEnv_state := stored,
                         fragment := (if getHash env = newHash then fragment env
                                      else hashPrefix env @ strip_hash newHash)\<rparr>)))
    in add History state v env = run SRC_ADD SetHash \<and>
       replace History state v env = run SRC_REPLACE ReplaceHash) \<and>
   (GlobalEnv_state (snd (snd (replace History state v env))) = GlobalEnv_state env \<longrightarrow>
      writes (replace History state v env) = [])"
proof -
  have 1: "History_storeState source ns env =
     (case createHash ns of
        Inl e \<Rightarrow> (Some e, [], env)
      | Inr newHash \<Rightarrow>
          if getHash env = newHash then (None, [], env\<lparr>GlobalEnv_state := ns\<rparr>)
          else (None, [if source = SRC_REPLACE then ReplaceHash newHash else SetHash newHash],
                env\<lparr>GlobalEnv_state := ns,
                    fragment := hashPrefix env @ strip_hash newHash\<rparr>))"
    by (rule History_storeState_explicit)
  have 3: "GlobalEnv_state (snd (snd (replace History state v env))) = GlobalEnv_state env \<longrightarrow>
      writes (replace History state v env) = []"
    using change_same_state_no_write [of SRC_REPLACE state v env] by (simp add: replace_def)
  have pa: "add History state v env =
      (if changed_of (GlobalEnv_state env) ns' = [] \<and> removed_of (GlobalEnv_state env) ns' = []
       then (None, [], env)
       else fireEvents History SRC_ADD
             (changed_of (GlobalEnv_state env) ns', stored_of (GlobalEnv_state env) ns',
              GlobalEnv_state env, removed_of (GlobalEnv_state env) ns') env)"
    and pr: "replace History state v env =
      (if changed_of (GlobalEnv_state env) ns' = [] \<and> removed_of (GlobalEnv_state env) ns' = []
       then (None, [], env)
       else fireEvents History SRC_REPLACE
             (changed_of (GlobalEnv_state env) ns', stored_of (GlobalEnv_state env) ns',
              GlobalEnv_state env, removed_of (GlobalEnv_state env) ns') env)"
    if "ns' = merge (GlobalEnv_state env)
                     (case state of KeyArg key \<Rightarrow> set_prop [] key v | ObjectArg st \<Rightarrow> st)"
    for ns'
    using that by (simp_all add: add_def replace_def change_explicit resolveChanges_explicit)
  show ?thesis
    apply (intro conjI)
      apply (rule 1)
     apply (simp only: Let_def pa [OF refl] pr [OF refl] fireEvents_History_explicit)
     apply (simp split: sum.splits)
    apply (rule 3)
    done
qed


theorem History_store_compares_then_writes_witness:
  "add History (KeyArg (js ''a'')) (Str (js ''1''))
     \<lparr>GlobalEnv_state = [], fragment = [], hashPrefix = js ''!''\<rparr>
   = (None,
      [Fire (js ''change'')
         (StateChange [(js ''a'', Change (Str (js ''1'')) Undefined)]
            [(js ''a'', Str (js ''1''))] [] [] SRC_ADD),
       SetHash (js ''a=1''),
       Fire (js ''aChange'') (ItemChange (Str (js ''1'')) Undefined SRC_ADD)],
      \<lparr>GlobalEnv_state = [(js ''a'', Str (js ''1''))], fragment = js ''!a=1'',
        hashPrefix = js ''!''\<rparr>) \<and>
   replace History (KeyArg (js ''a'')) (Str (js ''1''))
     \<lparr>GlobalEnv_state = [], fragment = [], hashPrefix = js ''!''\<rparr>
   = (None,
      [Fire (js ''change'')
         (StateChange [(js ''a'', Change (Str (js ''1'')) Undefined)]
            [(js ''a'', Str (js ''1''))] [] [] SRC_REPLACE),
       ReplaceHash (js ''a=1''),
       Fire (js ''aChange'') (ItemChange (Str (js ''1'')) Undefined SRC_REPLACE)],
      \<lparr>GlobalEnv_state = [(js ''a'', Str (js ''1''))], fragment = js ''!a=1'',
        hashPrefix = js ''!''\<rparr>) \<and>
   writes (replace History (KeyArg (js ''a'')) (Str (js ''1''))
     \<lparr>GlobalEnv_state = [(js ''a'', Str (js ''1''))], fragment = js ''!a=1'',
       hashPrefix = js ''!''\<rparr>) = [] \<and>
   History_storeState SRC_ADD [(js ''a'', Str (js ''1''))]
     \<lparr>GlobalEnv_state = [], fragment = js ''!a=1'', hashPrefix = js ''!''\<rparr>
   = (None, [],
      \<lparr>GlobalEnv_state = [(js ''a'', Str (js ''1''))], fragment = js ''!a=1'',
        hashPrefix = js ''!''\<rparr>)"
proof -
  let ?a1 = "[(js ''a'', Str (js ''1''))]"
  let ?e0 = "\<lparr>GlobalEnv_state = [], fragment = [], hashPrefix = js ''!''\<rparr>"
  let ?e1 = "\<lparr>GlobalEnv_state = ?a1, fragment = js ''!a=1'', hashPrefix = js ''!''\<rparr>"
  let ?e2 = "\<lparr>GlobalEnv_state = [], fragment = js ''!a=1'', hashPrefix = js ''!''\<rparr>"
  have m: "merge [] (set_prop [] (js ''a'') (Str (js ''1''))) = ?a1"
    by code_simp
  have c: "changed_of [] ?a1 = [(js ''a'', Change (Str (js ''1'')) Undefined)]"
    by code_simp
  have r: "removed_of [] ?a1 = []"
    by code_simp
  have s: "stored_of [] ?a1 = ?a1"
    by code_simp
  have h: "createHash ?a1 = Inr (js ''a=1'')"
    by code_simp
  have g0: "getHash ?e0 \<noteq> js ''a=1''"
    by code_simp
  have g2: "getHash ?e2 = js ''a=1''"
    by code_simp
  have f: "js ''!'' @ strip_hash (js ''a=1'') = js ''!a=1''"
    by code_simp
  have ev: "js ''a'' @ js ''Change'' = js ''aChange''"
    by (simp add: js_def)
  have same: "GlobalEnv_state (snd (snd (replace History (KeyArg (js ''a'')) (Str (js ''1'')) ?e1)))
      = GlobalEnv_state ?e1"
    by code_simp
  note t0 = History_store_compares_then_writes
    [where env = ?e0 and state = "KeyArg (js ''a'')" and v = "Str (js ''1'')"]
  from t0 have w1: "add History (KeyArg (js ''a'')) (Str (js ''1'')) ?e0
   = (None,
      [Fire (js ''change'')
         (StateChange [(js ''a'', Change (Str (js ''1'')) Undefined)] ?a1 [] [] SRC_ADD),
       SetHash (js ''a=1''),
       Fire (js ''aChange'') (ItemChange (Str (js ''1'')) Undefined SRC_ADD)], ?e1)"
    using g0 f by (simp add: Let_def m c r s h fireChangeEvent_def ev)
  from t0 have w2: "replace History (KeyArg (js ''a'')) (Str (js ''1'')) ?e0
   = (None,
      [Fire (js ''change'')
         (StateChange [(js ''a'', Change (Str (js ''1'')) Undefined)] ?a1 [] [] SRC_REPLACE),
       ReplaceHash (js ''a=1''),
       Fire (js ''aChange'') (ItemChange (Str (js ''1'')) Undefined SRC_REPLACE)], ?e1)"
    using g0 f by (simp add: Let_def m c r s h fireChangeEvent_def ev)
  from same History_store_compares_then_writes
    [where env = ?e1 and state = "KeyArg (js ''a'')" and v = "Str (js ''1'')"]
  have w3: "writes (replace History (KeyArg (js ''a'')) (Str (js ''1'')) ?e1) = []"
    by blast
  from History_store_compares_then_writes [where env = ?e2 and ns = ?a1 and source = SRC_ADD]
  have w4: "History_storeState SRC_ADD ?a1 ?e2 = (None, [], ?e1)"
    using g2 by (simp add: h)
  from w1 w2 w3 w4 show ?thesis by simp
qed

subsection \<open>Fragment changes seen from outside\<close>

lemma parseParams_no_null:
  "parseParams ms ps = Inr r \<Longrightarrow> (\<And>k. map_of ps k \<noteq> Some Null) \<Longrightarrow> map_of r k \<noteq> Some Null"
proof (induction ms arbitrary: ps)
  case Nil
  then show ?case by simp
next
  case (Cons m ms)
  from Cons.prems(1) obtain key v where
    step: "parseParams ms (assign_string ps key v) = Inr r"
    by (auto simp: Let_def split: sum.splits)
  have "\<And>k. map_of (assign_string ps key v) k \<noteq> Some Null"
    using Cons.prems(2) by (simp add: assign_string_def set_prop_def update_conv')
  from Cons.IH [OF step this] show ?case .
qed

lemma parseHash_no_null: "parseHash env h = Inr ns \<Longrightarrow> map_of ns k \<noteq> Some Null"
  unfolding parseHash_def Let_def by (erule parseParams_no_null) simp

lemma removed_step_keeps:
  "foldl removed_step (n, r, c) ps = (n', r', c') \<Longrightarrow> (\<And>k. map_of n k \<noteq> Some Null) \<Longrightarrow> n' = n"
proof (induction ps arbitrary: r c)
  case Nil
  then show ?case by simp
next
  case (Cons a ps)
  obtain key pv where a: "a = (key, pv)" by (cases a) auto
  show ?case
  proof (cases "\<not> owns n key \<or> get_prop n key = Null")
    case True
    with Cons.prems(2) [of key] have "map_of n key = None"
      by (auto simp: owns_def get_prop_def split: option.splits)
    then have "delete_prop n key = n"
      by (simp add: delete_prop_def map_of_eq_None_iff)
    with True Cons.prems(1) a
    have "foldl removed_step (n, set_prop r key pv, True) ps = (n', r', c')"
      by (simp add: removed_step_pair)
    from Cons.IH [OF this Cons.prems(2)] show ?thesis .
  next
    case False
    with Cons.prems(1) a have "foldl removed_step (n, r, c) ps = (n', r', c')"
      by (simp add: removed_step_pair)
    from Cons.IH [OF this Cons.prems(2)] show ?thesis .
  qed
qed

lemma stored_of_no_null: "(\<And>k. map_of ns k \<noteq> Some Null) \<Longrightarrow> stored_of ps ns = ns"
proof -
  assume nn: "\<And>k. map_of ns k \<noteq> Some Null"
  obtain n' r' c' where l: "foldl removed_step (ns, [], False) ps = (n', r', c')"
    by (cases "foldl removed_step (ns, [], False) ps") auto
  from removed_step_keeps [OF l nn] l show ?thesis by (simp add: stored_of_def)
qed

lemma assign_string_distinct:
  "distinct (map fst ps) \<Longrightarrow> distinct (map fst (assign_string ps key v))"
  by (simp add: assign_string_def set_prop_def distinct_update)

lemma parseParams_distinct:
  "parseParams ms ps = Inr r \<Longrightarrow> distinct (map fst ps) \<Longrightarrow> distinct (map fst r)"
proof (induction ms arbitrary: ps)
  case Nil
  then show ?case by simp
next
  case (Cons m ms)
  from Cons.prems(1) obtain key v where
    step: "parseParams ms (assign_string ps key v) = Inr r"
    by (auto simp: Let_def split: sum.splits)
  from Cons.IH [OF step assign_string_distinct [OF Cons.prems(2)]] show ?case .
qed

lemma parseHash_distinct: "parseHash env h = Inr ns \<Longrightarrow> distinct (map fst ns)"
  unfolding parseHash_def Let_def by (erule parseParams_distinct) simp

lemma detected_change_differs:
  assumes "distinct (map fst ns)" and "changed_of ps ns \<noteq> [] \<or> removed_of ps ns \<noteq> []"
  shows "stored_of ps ns \<noteq> ps"
  using resolved_state_differs [OF assms(1) first_loop second_loop] assms(2) by blast

text \<open>
  C6, as stated, fails: handling a change whose source is \<open>hash\<close> goes through the same
  \<open>_storeState\<close> as every other change, and that method has no test for the source
  \<open>hash\<close>. With the fragment \<open>a=1&junk\<close> the decoded state \<open>{a: "1"}\<close> is encoded as
  \<open>a=1\<close>, which differs from the fragment, and \<open>setHash("a=1")\<close> is called.
\<close>

theorem hashchange_writes_fragment_counterexample:
  "writes (hashchange \<lparr>GlobalEnv_state = [], fragment = js ''a=1&junk'', hashPrefix = []\<rparr>)
     = [SetHash (js ''a=1'')]"
  by code_simp

text \<open>
  C6, amended. Handling a fragment change never calls \<open>replaceHash\<close>, and it calls
  \<open>setHash\<close> in one case only: the state decoded from the fragment differs from the
  stored state (\<open>changed\<close> or \<open>removed\<close> has an entry), it can be encoded, and its hash
  differs from the fragment as \<open>getHash\<close> reads it. Then \<open>setHash\<close> is called once, with
  the hash of the decoded state, which is the state that is stored. In every other case
  nothing is written; when no change is found nothing happens at all, and when the
  decoded state encodes to the fragment itself, nothing is written.
\<close>

theorem hashchange_writes_only_when_hash_differs:
  "hashchange env =
     (case parseHash env (Some (getHash env)) of
        Inl e \<Rightarrow> (Some e, [], env)
      | Inr newState \<Rightarrow>
          (let prevState = GlobalEnv_state env;
               changed = changed_of prevState newState;
               removed = removed_of prevState newState
           in if changed = [] \<and> removed = [] then (None, [], env)
              else (case createHash newState of
                      Inl e \<Rightarrow>
                        (Some e,
                         [Fire (js ''change'')
                            (StateChange changed newState prevState removed SRC_HASH)],
                         env)
                    | Inr newHash \<Rightarrow>
                        (None,
                         Fire (js ''change'')
                           (StateChange changed newState prevState removed SRC_HASH) #
                         (if getHash env = newHash then [] else [SetHash newHash]) @
                         map (\<lambda>(key, c). fireChangeEvent SRC_HASH key c) changed @
                         map (\<lambda>(key, pv). fireRemoveEvent SRC_HASH key pv) removed,
                         env\<lparr>GlobalEnv_state := newState,
                             fragment := (if getHash env = newHash then fragment env
                                          else hashPrefix env @ strip_hash newHash)\<rparr>)))) \<and>
   writes (hashchange env) =
     (case parseHash env (Some (getHash env)) of
        Inl e \<Rightarrow> []
      | Inr newState \<Rightarrow>
          if changed_of (GlobalEnv_state env) newState = [] \<and>
             removed_of (GlobalEnv_state env) newState = []
          then []
          else (case createHash newState of
                  Inl e \<Rightarrow> []
                | Inr newHash \<Rightarrow> if getHash env = newHash then [] else [SetHash newHash])) \<and>
   (parseHash env (Some (getHash env)) = Inr ns \<and> createHash ns = Inr (getHash env) \<longrightarrow>
      writes (hashchange env) = []) \<and>
   (parseHash env (Some (getHash env)) = Inr ns \<and> writes (hashchange env) \<noteq> [] \<longrightarrow>
      ns \<noteq> GlobalEnv_state env \<and> GlobalEnv_state (snd (snd (hashchange env))) = ns \<and>
      (\<exists>newHash. createHash ns = Inr newHash \<and> newHash \<noteq> getHash env \<and>
         writes (hashchange env) = [SetHash newHash]))"
proof -
  have 1: "hashchange env =
     (case parseHash env (Some (getHash env)) of
        Inl e \<Rightarrow> (Some e, [], env)
      | Inr newState \<Rightarrow>
          (let prevState = GlobalEnv_state env;
               changed = changed_of prevState newState;
               removed = removed_of prevState newState
           in if changed = [] \<and> removed = [] then (None, [], env)
              else (case createHash newState of
                      Inl e \<Rightarrow>
                        (Some e,
                         [Fire (js ''change'')
                            (StateChange changed newState prevState removed SRC_HASH)],
                         env)
                    | Inr newHash \<Rightarrow>
                        (None,
                         Fire (js ''change'')
                           (StateChange changed newState prevState removed SRC_HASH) #
                         (if getHash env = newHash then [] else [SetHash newHash]) @
                         map (\<lambda>(key, c). fireChangeEvent SRC_HASH key c) changed @
                         map (\<lambda>(key, pv). fireRemoveEvent SRC_HASH key pv) removed,
                         env\<lparr>GlobalEnv_state := newState,
                             fragment := (if getHash env = newHash then fragment env
                                          else hashPrefix env @ strip_hash newHash)\<rparr>))))"
  proof (cases "parseHash env (Some (getHash env))")
    case (Inl e)
    then show ?thesis by (simp add: hashchange_def afterHashChange_def)
  next
    case (Inr newState)
    have "stored_of (GlobalEnv_state env) newState = newState"
      by (rule stored_of_no_null) (rule parseHash_no_null [OF Inr])
    with Inr show ?thesis
      by (simp add: hashchange_def afterHashChange_def resolveChanges_explicit
            fireEvents_History_explicit Let_def split: sum.splits)
  qed
  have 2: "writes (hashchange env) =
     (case parseHash env (Some (getHash env)) of
        Inl e \<Rightarrow> []
      | Inr newState \<Rightarrow>
          if changed_of (GlobalEnv_state env) newState = [] \<and>
             removed_of (GlobalEnv_state env) newState = []
          then []
          else (case createHash newState of
                  Inl e \<Rightarrow> []
                | Inr newHash \<Rightarrow> if getHash env = newHash then [] else [SetHash newHash]))"
    unfolding 1
    by (simp add: Let_def writes_def filter_is_write_items split: sum.splits)
  have 3: "parseHash env (Some (getHash env)) = Inr ns \<and> createHash ns = Inr (getHash env) \<longrightarrow>
      writes (hashchange env) = []"
    unfolding 2 by (simp split: sum.splits)
  have 4: "ns \<noteq> GlobalEnv_state env \<and> GlobalEnv_state (snd (snd (hashchange env))) = ns \<and>
      (\<exists>newHash. createHash ns = Inr newHash \<and> newHash \<noteq> getHash env \<and>
         writes (hashchange env) = [SetHash newHash])"
    if p: "parseHash env (Some (getHash env)) = Inr ns" and w: "writes (hashchange env) \<noteq> []"
  proof -
    from w have ch: "changed_of (GlobalEnv_state env) ns \<noteq> [] \<or>
        removed_of (GlobalEnv_state env) ns \<noteq> []"
      unfolding 2 p by (auto split: if_splits)
    from w ch obtain newHash where h: "createHash ns = Inr newHash" "newHash \<noteq> getHash env"
        "writes (hashchange env) = [SetHash newHash]"
      unfolding 2 p by (auto split: if_splits sum.splits)
    have "stored_of (GlobalEnv_state env) ns = ns"
      by (rule stored_of_no_null) (rule parseHash_no_null [OF p])
    with detected_change_differs [OF parseHash_distinct [OF p] ch]
    have "ns \<noteq> GlobalEnv_state env" by simp
    moreover from ch h have "GlobalEnv_state (snd (snd (hashchange env))) = ns"
      unfolding 1 p by (auto simp: Let_def)
    ultimately show ?thesis using h by blast
  qed
  from 1 2 3 4 show ?thesis by (intro conjI) blast+
qed

theorem hashchange_writes_only_when_hash_differs_witness:
  "writes (hashchange \<lparr>GlobalEnv_state = [], fragment = js ''a=1'', hashPrefix = []\<rparr>) = [] \<and>
   hashchange \<lparr>GlobalEnv_state = [(js ''a'', Str (js ''1''))], fragment = js ''a=1&junk'',
                hashPrefix = []\<rparr>
     = (None, [], \<lparr>GlobalEnv_state = [(js ''a'', Str (js ''1''))], fragment = js ''a=1&junk'',
                    hashPrefix = []\<rparr>) \<and>
   GlobalEnv_state (snd (snd (hashchange
       \<lparr>GlobalEnv_state = [], fragment = js ''a=1&junk'', hashPrefix = []\<rparr>)))
     = [(js ''a'', Str (js ''1''))]"
proof -
  let ?a1 = "[(js ''a'', Str (js ''1''))]"
  let ?e1 = "\<lparr>GlobalEnv_state = [], fragment = js ''a=1'', hashPrefix = []\<rparr>"
  let ?e2 = "\<lparr>GlobalEnv_state = ?a1, fragment = js ''a=1&junk'', hashPrefix = []\<rparr>"
  let ?e3 = "\<lparr>GlobalEnv_state = [], fragment = js ''a=1&junk'', hashPrefix = []\<rparr>"
  have p: "parseHash ?e1 (Some (getHash ?e1)) = Inr ?a1"
    by code_simp
  have c: "createHash ?a1 = Inr (getHash ?e1)"
    by code_simp
  have q: "parseHash ?e2 (Some (getHash ?e2)) = Inr ?a1"
    by code_simp
  have d: "changed_of ?a1 ?a1 = []" "removed_of ?a1 ?a1 = []"
    by code_simp+
  have r: "parseHash ?e3 (Some (getHash ?e3)) = Inr ?a1"
    by code_simp
  have w: "writes (hashchange ?e3) \<noteq> []"
    by code_simp
  from p c hashchange_writes_only_when_hash_differs [where env = ?e1 and ns = ?a1]
  have w1: "writes (hashchange ?e1) = []"
    by blast
  from hashchange_writes_only_when_hash_differs [where env = ?e2]
  have w2: "hashchange ?e2 = (None, [], ?e2)"
    by (simp add: q d)
  from r w hashchange_writes_only_when_hash_differs [where env = ?e3 and ns = ?a1]
  have w3: "GlobalEnv_state (snd (snd (hashchange ?e3))) = ?a1"
    by blast
  from w1 w2 w3 show ?thesis by simp
qed

section \<open>Parsing the fragment\<close>

subsection \<open>The matches of \<open>_REGEX_HASH\<close>\<close>

lemma not_keyChar_amp [simp]: "\<not> keyChar 0x26" "\<not> valChar 0x26" "\<not> keyChar 0x23"
  by (simp_all add: keyChar_def valChar_def)

lemma tryKey_amp:
  "n \<le> length x \<Longrightarrow> tryKey n (x @ 0x26 # y) = tryKey n x"
proof (induction n)
  case 0
  then show ?case by simp
next
  case (Suc n)
  then have d: "drop (Suc n) (x @ 0x26 # y) = drop (Suc n) x @ 0x26 # y" by simp
  have t: "take (Suc (Suc n)) (x @ 0x26 # y) = take (Suc (Suc n)) x" if "Suc (Suc n) \<le> length x"
    using that by simp
  from Suc have ih: "tryKey n (x @ 0x26 # y) = tryKey n x" by simp
  show ?case
  proof (cases "drop (Suc n) x")
    case Nil
    then show ?thesis using ih d by (cases y) (simp_all del: drop_append)
  next
    case (Cons e r)
    note er = this
    show ?thesis
    proof (cases r)
      case Nil
      then show ?thesis using ih d er by (simp del: drop_append)
    next
      case (Cons v rest)
      have "length (drop (Suc n) x) \<ge> 2" using er Cons by simp
      then have "Suc (Suc n) \<le> length x" by simp
      from t [OF this] show ?thesis
        using ih d er Cons by (simp del: drop_append take_append add: takeWhile_tail)
    qed
  qed
qed

lemma matchAt_amp: "matchAt (x @ 0x26 # y) = matchAt x"
proof -
  have "takeWhile keyChar (x @ 0x26 # y) = takeWhile keyChar x"
    by (simp add: takeWhile_tail)
  moreover have "length (takeWhile keyChar x) \<le> length x"
    by (rule length_takeWhile_le)
  ultimately show ?thesis by (simp add: matchAt_def tryKey_amp)
qed

lemma tryKey_shape:
  "tryKey n s = Some m \<Longrightarrow>
     \<exists>A v B. m = A @ 0x3D # v # B \<and> take (length m) s = m \<and> valChar v"
proof (induction n)
  case 0
  then show ?case by simp
next
  case (Suc n)
  show ?case
  proof (cases "drop (Suc n) s")
    case Nil
    with Suc show ?thesis by simp
  next
    case (Cons e r)
    note er = this
    show ?thesis
    proof (cases r)
      case Nil
      with Suc er show ?thesis by simp
    next
      case (Cons v rest)
      show ?thesis
      proof (cases "e = 0x3D \<and> valChar v")
        case False
        with Suc er Cons show ?thesis by auto
      next
        case True
        with Suc.prems er Cons
        have m: "m = take (Suc (Suc n)) s @ takeWhile valChar (v # rest)" by simp
        have s: "s = take (Suc n) s @ e # v # rest"
          using er Cons by (metis append_take_drop_id)
        have len: "Suc n \<le> length s" using er by (metis drop_all not_less_eq_eq list.distinct(1) nat_le_linear)
        have t2: "take (Suc (Suc n)) s = take (Suc n) s @ [e]"
          using er len by (metis Cons_nth_drop_Suc  drop_all leD list.distinct(1) list.inject not_le_imp_less take_Suc_conv_app_nth)
        have m2: "m = take (Suc n) s @ 0x3D # v # takeWhile valChar rest"
          using m t2 True by simp
        have "take (length m) s = m"
        proof -
          have "s = m @ dropWhile valChar rest"
            using s m2 True by (metis append.assoc append_Cons takeWhile_dropWhile_id)
          then show ?thesis by (metis append_eq_conv_conj)
        qed
        with m2 True show ?thesis by blast
      qed
    qed
  qed
qed

lemma matchAt_shape:
  "matchAt s = Some m \<Longrightarrow>
     \<exists>A v B. m = A @ 0x3D # v # B \<and> take (length m) s = m \<and> valChar v"
  unfolding matchAt_def by (rule tryKey_shape)

lemma matchAll_amp: "matchAll (x @ 0x26 # y) = matchAll x @ matchAll y"
proof (induction x rule: length_induct)
  case (1 x)
  show ?case
  proof (cases x)
    case Nil
    have "matchAt (0x26 # y) = None" by (simp add: matchAt_def)
    then show ?thesis using Nil by simp
  next
    case (Cons c cs)
    have ma: "matchAt (c # cs @ 0x26 # y) = matchAt (c # cs)"
      using matchAt_amp [of "c # cs" y] by simp
    show ?thesis
    proof (cases "matchAt (c # cs)")
      case None
      with ma Cons 1 show ?thesis by simp
    next
      case (Some m)
      from matchAt_shape [OF Some] have tk: "take (length m) (c # cs) = m" and "m \<noteq> []"
        by auto
      from tk have le: "length m \<le> length (c # cs)"
        by (metis length_take min.cobounded1)
      with \<open>m \<noteq> []\<close> have le': "length m - 1 \<le> length cs"
        by (cases m) auto
      then have d: "drop (length m - 1) (cs @ 0x26 # y) = drop (length m - 1) cs @ 0x26 # y"
        by simp
      have "length (drop (length m - 1) cs) < length x" using Cons by simp
      with 1 have "matchAll (drop (length m - 1) cs @ 0x26 # y) =
          matchAll (drop (length m - 1) cs) @ matchAll y" by blast
      with Some ma d Cons show ?thesis by (simp del: drop_append)
    qed
  qed
qed

lemma tryKey_no_eq: "0x3D \<notin> set s \<Longrightarrow> tryKey n s = None"
proof (induction n)
  case 0
  then show ?case by simp
next
  case (Suc n)
  show ?case
  proof (cases "drop (Suc n) s")
    case Nil
    with Suc show ?thesis by simp
  next
    case (Cons e r)
    then have "e \<in> set s" by (metis in_set_dropD list.set_intros(1))
    with Suc.prems have "e \<noteq> 0x3D" by auto
    with Suc Cons show ?thesis by (cases r) simp_all
  qed
qed

lemma matchAll_no_eq: "0x3D \<notin> set s \<Longrightarrow> matchAll s = []"
proof (induction s)
  case Nil
  then show ?case by simp
next
  case (Cons c cs)
  from tryKey_no_eq [OF Cons.prems] have "matchAt (c # cs) = None"
    by (simp add: matchAt_def)
  with Cons show ?case by simp
qed

subsection \<open>The prefix\<close>

lemma js_chars: "js ''#'' = [0x23]" "js ''&'' = [0x26]" "js ''='' = [0x3D]" "js ''=&'' = [0x3D, 0x26]"
  by (simp_all add: js_def)

lemma indexOf_at_front: "p \<noteq> [] \<Longrightarrow> indexOf (p @ s) p = 0"
  by (cases p) simp_all

lemma replaceFirst_at_front: "p \<noteq> [] \<Longrightarrow> replaceFirst (p @ s) p [] = s"
  by (cases p) simp_all

lemma parseHash_prefix_at_front: "p \<noteq> [] \<Longrightarrow> parseHash_prefix p (p @ s) = s"
  by (simp add: parseHash_prefix_def indexOf_at_front replaceFirst_at_front)

lemma take_self_shift:
  "take (length p) (c # p @ s) = p \<Longrightarrow> drop (length p) (c # p @ s) = c # s"
proof (induction p arbitrary: c)
  case Nil
  then show ?case by simp
next
  case (Cons a p)
  from Cons.prems have "c = a" and "take (length p) (a # p @ s) = p" by simp_all
  with Cons.IH [of a] show ?case by simp
qed

lemma parseHash_prefix_behind_hash:
  assumes "p \<noteq> []"
  shows "parseHash_prefix p (0x23 # p @ s) = 0x23 # s"
proof (cases "take (length p) (0x23 # p @ s) = p")
  case True
  with assms take_self_shift [OF True] show ?thesis
    by (simp add: parseHash_prefix_def del: take_Suc_Cons drop_Suc_Cons)
next
  case False
  with assms have r: "replaceFirst (0x23 # p @ s) p [] = 0x23 # s"
    by (simp add: replaceFirst_at_front)
  from False assms have i: "indexOf (0x23 # p @ s) p = 1"
    by (simp add: indexOf_at_front)
  have t: "take 1 (0x23 # p @ s) = js ''#''"
    by (simp add: js_chars)
  show ?thesis
    unfolding parseHash_prefix_def Let_def i r t using assms by simp
qed

lemma matchAll_behind_hash: "matchAll (0x23 # s) = matchAll s"
  by (simp add: matchAt_def)

lemma set_replaceFirst: "set (replaceFirst s p []) \<subseteq> set s"
proof (induction s)
  case Nil
  then show ?case by simp
next
  case (Cons c cs)
  have "set (drop (length p) (c # cs)) \<subseteq> set (c # cs)" by (rule set_drop_subset)
  with Cons show ?case by auto
qed

lemma set_parseHash_prefix: "set (parseHash_prefix p s) \<subseteq> set s"
  using set_replaceFirst [of s p] by (auto simp: parseHash_prefix_def Let_def)

lemma scenario_C:
  "parseParams (matchAll (parseHash_prefix (js ''!'') (js ''#!foo=bar&baz=quux''))) []
     = Inr [(js ''foo'', Str (js ''bar'')), (js ''baz'', Str (js ''quux''))]"
  by code_simp


text \<open>
  C8. With the prefix \<open>!\<close>, \<open>parseHash("#!foo=bar&baz=quux")\<close> is
  \<open>{foo: "bar", baz: "quux"}\<close>. A prefix that is set is stripped at the start of the
  string and behind a leading \<open>#\<close>: the pairs are those of the rest. A segment without
  \<open>=\<close> between two \<open>&\<close> adds no match, a string without \<open>=\<close> parses to the empty
  object without an error, and so does the empty string.
\<close>

theorem parseHash_strips_prefix_and_skips_malformed:
  "parseHash \<lparr>GlobalEnv_state = st, fragment = f, hashPrefix = js ''!''\<rparr>
       (Some (js ''#!foo=bar&baz=quux''))
     = Inr [(js ''foo'', Str (js ''bar'')), (js ''baz'', Str (js ''quux''))] \<and>
   (hashPrefix env \<noteq> [] \<longrightarrow>
      parseHash env (Some (hashPrefix env @ s)) = parseParams (matchAll s) [] \<and>
      parseHash env (Some (js ''#'' @ hashPrefix env @ s)) = parseParams (matchAll s) []) \<and>
   (0x3D \<notin> set seg \<longrightarrow>
      matchAll (a @ js ''&'' @ seg @ js ''&'' @ b) = matchAll (a @ js ''&'' @ b) \<and>
      parseHash env (Some seg) = Inr []) \<and>
   parseHash env (Some []) = Inr []"
proof -
  have c1: "parseHash \<lparr>GlobalEnv_state = st, fragment = f, hashPrefix = js ''!''\<rparr>
       (Some (js ''#!foo=bar&baz=quux''))
     = Inr [(js ''foo'', Str (js ''bar'')), (js ''baz'', Str (js ''quux''))]"
    using scenario_C by (simp add: parseHash_def)
  have c2: "parseHash env (Some (hashPrefix env @ s)) = parseParams (matchAll s) []"
    if "hashPrefix env \<noteq> []"
    using that by (simp add: parseHash_def parseHash_prefix_at_front)
  have c3: "parseHash env (Some (js ''#'' @ hashPrefix env @ s)) = parseParams (matchAll s) []"
    if "hashPrefix env \<noteq> []"
    using that
    by (simp add: parseHash_def parseHash_prefix_behind_hash js_chars matchAll_behind_hash
          del: matchAll.simps)
  have c4: "matchAll (a @ js ''&'' @ seg @ js ''&'' @ b) = matchAll (a @ js ''&'' @ b)"
    if "0x3D \<notin> set seg"
    using that by (simp add: js_chars matchAll_amp matchAll_no_eq)
  have c5: "parseHash env (Some seg) = Inr []" if "0x3D \<notin> set seg"
  proof -
    from that set_parseHash_prefix [of "hashPrefix env" seg]
    have "0x3D \<notin> set (parseHash_prefix (hashPrefix env) seg)" by auto
    then show ?thesis by (simp add: parseHash_def matchAll_no_eq)
  qed
  have c6: "parseHash env (Some []) = Inr []"
    by (simp add: parseHash_def parseHash_prefix_def)
  from c1 c2 c3 c4 c5 c6 show ?thesis by blast
qed

theorem parseHash_strips_prefix_and_skips_malformed_witness:
  "parseHash \<lparr>GlobalEnv_state = [], fragment = [], hashPrefix = js ''!''\<rparr>
       (Some (js ''!foo=bar'')) = Inr [(js ''foo'', Str (js ''bar''))] \<and>
   parseHash \<lparr>GlobalEnv_state = [], fragment = [], hashPrefix = js ''!''\<rparr>
       (Some (js ''#!foo=bar'')) = Inr [(js ''foo'', Str (js ''bar''))] \<and>
   matchAll (js ''a=1&junk&b=2'') = matchAll (js ''a=1&b=2'') \<and>
   parseHash \<lparr>GlobalEnv_state = [], fragment = [], hashPrefix = js ''!''\<rparr>
       (Some (js ''junk'')) = Inr []"
proof -
  let ?env = "\<lparr>GlobalEnv_state = [], fragment = [], hashPrefix = js ''!''\<rparr>"
  have p: "hashPrefix ?env \<noteq> []"
    by (simp add: js_def)
  have q: "0x3D \<notin> set (js ''junk'')"
    by (simp add: js_def)
  have e1: "hashPrefix ?env @ js ''foo=bar'' = js ''!foo=bar''"
    and e2: "js ''#'' @ hashPrefix ?env @ js ''foo=bar'' = js ''#!foo=bar''"
    and e3: "js ''a=1'' @ js ''&'' @ js ''junk'' @ js ''&'' @ js ''b=2'' = js ''a=1&junk&b=2''"
    and e4: "js ''a=1'' @ js ''&'' @ js ''b=2'' = js ''a=1&b=2''"
    and e5: "js ''#'' @ js ''!foo=bar'' = js ''#!foo=bar''"
    by (simp_all add: js_def)
  have m: "parseParams (matchAll (js ''foo=bar'')) [] = Inr [(js ''foo'', Str (js ''bar''))]"
    by code_simp
  from p q parseHash_strips_prefix_and_skips_malformed
    [where env = ?env and s = "js ''foo=bar''" and seg = "js ''junk''" and a = "js ''a=1''"
       and b = "js ''b=2''"]
  have "parseHash ?env (Some (hashPrefix ?env @ js ''foo=bar'')) =
          parseParams (matchAll (js ''foo=bar'')) []"
    and "parseHash ?env (Some (js ''#'' @ hashPrefix ?env @ js ''foo=bar'')) =
          parseParams (matchAll (js ''foo=bar'')) []"
    and "matchAll (js ''a=1'' @ js ''&'' @ js ''junk'' @ js ''&'' @ js ''b=2'') =
          matchAll (js ''a=1'' @ js ''&'' @ js ''b=2'')"
    and "parseHash ?env (Some (js ''junk'')) = Inr []"
    by blast+
  then show ?thesis
    unfolding e2 e3 e4 m unfolding e1 e5 by simp
qed

subsection \<open>The second group of a match\<close>

lemma split_head_nonempty: "c \<noteq> sep \<Longrightarrow> \<exists>p ps. split sep (c # cs) = (c # p) # ps"
  by (cases "split sep cs") simp_all

lemma split_second_nonempty:
  "\<not> doubled_eq (A @ 0x3D # v # B) \<Longrightarrow>
     \<exists>p0 p1 ps. split 0x3D (A @ 0x3D # v # B) = p0 # p1 # ps \<and> p1 \<noteq> []"
proof (induction A)
  case Nil
  then have "v \<noteq> 0x3D" by auto
  from split_head_nonempty [OF this, of B] show ?case by auto
next
  case (Cons a A)
  from Cons.prems have nd: "\<not> doubled_eq (A @ 0x3D # v # B)"
    by (cases A) auto
  from Cons.IH [OF nd] obtain p0 p1 ps where
    ih: "split 0x3D (A @ 0x3D # v # B) = p0 # p1 # ps" "p1 \<noteq> []" by blast
  show ?case
  proof (cases "a = 0x3D")
    case False
    with ih show ?thesis by simp
  next
    case True
    with Cons.prems have "hd (A @ 0x3D # v # B) \<noteq> 0x3D"
      by (cases A) auto
    then obtain c cs where ccs: "A @ 0x3D # v # B = c # cs" "c \<noteq> 0x3D"
      by (cases "A @ 0x3D # v # B") auto
    from split_head_nonempty [OF ccs(2), of cs] ccs(1) True show ?thesis
      by auto
  qed
qed

lemma doubled_eq_tl: "\<not> doubled_eq (c # s) \<Longrightarrow> \<not> doubled_eq s"
  by (cases s) auto

lemma doubled_eq_drop: "\<not> doubled_eq s \<Longrightarrow> \<not> doubled_eq (drop n s)"
proof (induction n arbitrary: s)
  case 0
  then show ?case by simp
next
  case (Suc n)
  then show ?case by (cases s) (auto dest: doubled_eq_tl)
qed

lemma doubled_eq_take: "\<not> doubled_eq s \<Longrightarrow> \<not> doubled_eq (take n s)"
proof (induction n arbitrary: s)
  case 0
  then show ?case by simp
next
  case (Suc n)
  show ?case
  proof (cases s)
    case Nil
    then show ?thesis by simp
  next
    case (Cons a s')
    note s = this
    show ?thesis
    proof (cases n)
      case 0
      with s show ?thesis by simp
    next
      case (Suc k)
      note n = this
      show ?thesis
      proof (cases s')
        case Nil
        with s show ?thesis by simp
      next
        case (Cons b s'')
        from Suc.prems s Cons have "\<not> doubled_eq (b # s'')" and ab: "\<not> (a = 0x3D \<and> b = 0x3D)"
          by auto
        from Suc.IH [OF this(1)] have "\<not> doubled_eq (take n (b # s''))" .
        with ab s Cons n show ?thesis by simp
      qed
    qed
  qed
qed

lemma matchAll_members:
  "\<not> doubled_eq s \<Longrightarrow> m \<in> set (matchAll s) \<Longrightarrow>
     \<not> doubled_eq m \<and> (\<exists>A v B. m = A @ 0x3D # v # B)"
proof (induction s rule: length_induct)
  case (1 s)
  show ?case
  proof (cases s)
    case Nil
    with 1 show ?thesis by simp
  next
    case (Cons c cs)
    show ?thesis
    proof (cases "matchAt (c # cs)")
      case None
      with 1 Cons show ?thesis by (auto dest: doubled_eq_tl)
    next
      case (Some m')
      from matchAt_shape [OF Some] obtain A v B where
        sh: "m' = A @ 0x3D # v # B" "take (length m') (c # cs) = m'" by blast
      from 1(2) Cons have "\<not> doubled_eq (take (length m') (c # cs))"
        using doubled_eq_take by blast
      with sh have nd: "\<not> doubled_eq m'" by simp
      from 1(3) Cons Some have "m = m' \<or> m \<in> set (matchAll (drop (length m' - 1) cs))"
        by simp
      then show ?thesis
      proof
        assume "m = m'"
        with nd sh show ?thesis by blast
      next
        assume mem: "m \<in> set (matchAll (drop (length m' - 1) cs))"
        from 1(2) Cons have "\<not> doubled_eq cs"
          using doubled_eq_tl by blast
        then have "\<not> doubled_eq (drop (length m' - 1) cs)"
          by (rule doubled_eq_drop)
        moreover have "length (drop (length m' - 1) cs) < length s" using Cons by simp
        ultimately show ?thesis using 1(1) mem by blast
      qed
    qed
  qed
qed

lemma prepend_Inr: "prepend S r = Inr R \<Longrightarrow> \<exists>R'. R = S @ R'"
  by (auto simp: prepend_def split: sum.splits)

lemma utf16Encode_nonempty: "utf16Encode V \<noteq> []"
  by (simp add: utf16Encode_def)

lemma decodeURIComponent_nonempty:
  "decodeURIComponent s = Inr r \<Longrightarrow> s \<noteq> [] \<Longrightarrow> r \<noteq> []"
proof (cases s)
  case Nil
  then show "s \<noteq> [] \<Longrightarrow> r \<noteq> []" by simp
next
  case (Cons c cs)
  assume d: "decodeURIComponent s = Inr r"
  show "r \<noteq> []"
  proof (cases "c \<noteq> 0x25")
    case True
    with d Cons have "prepend [c] (decodeURIComponent cs) = Inr r" by simp
    from prepend_Inr [OF this] show ?thesis by auto
  next
    case False
    with d Cons obtain S x where "prepend S x = Inr r" "S \<noteq> []"
      by (auto simp: utf16Encode_nonempty split: list.splits option.splits if_splits)
    with prepend_Inr show ?thesis by fastforce
  qed
qed

lemma decode_nonempty: "decode s = Inr r \<Longrightarrow> s \<noteq> [] \<Longrightarrow> r \<noteq> []"
  unfolding decode_def by (erule decodeURIComponent_nonempty) simp

lemma parseParams_no_empty:
  "parseParams ms ps = Inr r \<Longrightarrow>
   (\<And>m. m \<in> set ms \<Longrightarrow> \<exists>p0 p1 qs. split 0x3D m = p0 # p1 # qs \<and> p1 \<noteq> []) \<Longrightarrow>
   (\<And>k. map_of ps k \<noteq> Some (Str [])) \<Longrightarrow> map_of r k \<noteq> Some (Str [])"
proof (induction ms arbitrary: ps)
  case Nil
  then show ?case by simp
next
  case (Cons m ms)
  from Cons.prems(2) [of m] obtain p0 p1 qs where
    sp: "split 0x3D m = p0 # p1 # qs" "p1 \<noteq> []" by auto
  from Cons.prems(1) sp obtain key v where
    kv: "decode p1 = Inr v" "parseParams ms (assign_string ps key v) = Inr r"
    by (auto simp: Let_def at_index_def decode_param_def split: sum.splits)
  from decode_nonempty [OF kv(1) sp(2)] have "v \<noteq> []" .
  with Cons.prems(3) have "\<And>k. map_of (assign_string ps key v) k \<noteq> Some (Str [])"
    by (simp add: assign_string_def set_prop_def update_conv')
  from Cons.IH [OF kv(2) _ this] Cons.prems(2) show ?case by simp
qed

lemma matchAll_key_only:
  "0x3D \<notin> set key \<Longrightarrow> matchAll (key @ [0x3D]) = []"
proof (induction key)
  case Nil
  show ?case by (simp add: matchAt_def keyChar_def)
next
  case (Cons c key)
  have "matchAt (c # key @ [0x3D]) = None"
  proof (rule ccontr)
    assume "matchAt (c # key @ [0x3D]) \<noteq> None"
    then obtain m where m: "matchAt (c # key @ [0x3D]) = Some m" by auto
    from matchAt_shape [OF m] obtain A v B where
      sh: "m = A @ 0x3D # v # B" "take (length m) (c # key @ [0x3D]) = m" by blast
    define D where "D = drop (length m) (c # key @ [0x3D])"
    from sh have "(c # key) @ [0x3D] = A @ 0x3D # v # (B @ D)"
      unfolding D_def by (metis append.assoc append_Cons append_take_drop_id)
    then have "butlast ((c # key) @ [0x3D]) = butlast (A @ 0x3D # v # (B @ D))"
      by simp
    then have "c # key = A @ 0x3D # butlast (v # (B @ D))"
      by (simp add: butlast_append)
    then have "0x3D \<in> set (c # key)"
      by (metis in_set_conv_decomp)
    with Cons.prems show False by simp
  qed
  with Cons show ?case by simp
qed


section \<open>Encoding and decoding\<close>

lemma unat_of_nat16: "n < 65536 \<Longrightarrow> unat (of_nat n :: char16) = n"
  by (simp add: unat_of_nat)

lemma hexValue_hexDigit: "d < 16 \<Longrightarrow> hexValue (hexDigit d) = Some d"
  by (auto simp: hexValue_def hexDigit_def unat_of_nat16 Let_def)

lemma hexByte_escape:
  "B < 256 \<Longrightarrow> hexByte (hexDigit (B div 16)) (hexDigit (B mod 16)) = Some B"
  by (simp add: hexByte_def hexValue_hexDigit)

lemma unat_hexDigit: "d < 16 \<Longrightarrow> unat (hexDigit d) = (if d < 10 then 48 + d else 55 + d)"
  by (simp add: hexDigit_def unat_of_nat16)

lemma hexDigit_neq: "d < 16 \<Longrightarrow> hexDigit d \<noteq> 0x25 \<and> hexDigit d \<noteq> 0x2B"
proof -
  assume d: "d < 16"
  have "unat (hexDigit d) \<noteq> unat (0x25 :: char16) \<and> unat (hexDigit d) \<noteq> unat (0x2B :: char16)"
    using d by (simp add: unat_hexDigit)
  then show ?thesis by auto
qed

lemma hexDigit_inj: "a < 16 \<Longrightarrow> b < 16 \<Longrightarrow> hexDigit a = hexDigit b \<Longrightarrow> a = b"
proof -
  assume a: "a < 16" and b: "b < 16" and e: "hexDigit a = hexDigit b"
  from e have "unat (hexDigit a) = unat (hexDigit b)" by simp
  with a b show ?thesis by (simp add: unat_hexDigit split: if_splits)
qed

lemma js_pct20: "js ''%20'' = [0x25, hexDigit 2, hexDigit 0]" "js ''+'' = [0x2B]"
  by (simp_all add: js_def hexDigit_def)

lemma escape_is_pct20: "B < 256 \<Longrightarrow> escape B = js ''%20'' \<longleftrightarrow> B = 32"
proof
  assume B: "B < 256" and e: "escape B = js ''%20''"
  then have "hexDigit (B div 16) = hexDigit 2" "hexDigit (B mod 16) = hexDigit 0"
    by (simp_all add: escape_def js_pct20)
  with B have "B div 16 = 2" "B mod 16 = 0"
    by (auto intro: hexDigit_inj)
  then show "B = 32" by presburger
next
  assume "B = 32"
  then show "escape B = js ''%20''" by (simp add: escape_def js_pct20)
qed

lemma replaceAll_escape:
  assumes B: "B < 256"
  shows "pct20_to_plus (escape B @ e) = (if B = 32 then js ''+'' else escape B) @ pct20_to_plus e"
proof (cases "B = 32")
  case True
  then have "escape B = js ''%20''" by (simp add: escape_is_pct20)
  then show ?thesis using True by (simp add: js_pct20)
next
  case False
  with B have ne: "escape B \<noteq> js ''%20''" by (simp add: escape_is_pct20)
  have h: "hexDigit (B div 16) \<noteq> 0x25" "hexDigit (B mod 16) \<noteq> 0x25"
    using B hexDigit_neq [of "B div 16"] hexDigit_neq [of "B mod 16"] by simp_all
  from ne h show ?thesis using False
    by (simp add: escape_def js_pct20)
qed

lemma p2s_escape: "B < 256 \<Longrightarrow> plus_to_space (escape B) = escape B"
  using hexDigit_neq [of "B div 16"] hexDigit_neq [of "B mod 16"]
  by (simp add: escape_def)

lemma replaceAll_escapes:
  "(\<And>b. b \<in> set bs \<Longrightarrow> b < 256 \<and> b \<noteq> 32) \<Longrightarrow>
   plus_to_space (pct20_to_plus (concat (map escape bs) @ e)) = concat (map escape bs) @ plus_to_space (pct20_to_plus e)"
proof (induction bs)
  case Nil
  then show ?case by simp
next
  case (Cons b bs)
  from Cons.prems [of b] have b: "b < 256" "b \<noteq> 32" by simp_all
  have "pct20_to_plus (concat (map escape (b # bs)) @ e) = escape b @ pct20_to_plus (concat (map escape bs) @ e)"
    using replaceAll_escape [OF b(1), of "concat (map escape bs) @ e"] b(2) by simp
  with Cons.IH Cons.prems b(1) show ?case by (simp add: p2s_escape)
qed

lemma unreserved_facts:
  "uriUnreserved c \<Longrightarrow> c \<noteq> 0x25 \<and> c \<noteq> 0x2B \<and> \<not> isTrailSurrogate c \<and> \<not> isLeadSurrogate c"
proof -
  assume u: "uriUnreserved c"
  have "unat (0x25 :: char16) = 37" "unat (0x2B :: char16) = 43" by simp_all
  with u show ?thesis
    by (auto simp: uriUnreserved_def Let_def isTrailSurrogate_def isLeadSurrogate_def)
qed

lemma replaceAll_unreserved: "uriUnreserved c \<Longrightarrow> pct20_to_plus (c # e) = c # pct20_to_plus e"
  using unreserved_facts [of c] by (simp add: js_pct20)

lemma split64: "(V::nat) div 64 * 64 + V mod 64 = V"
  by simp

lemma split4096: "(V::nat) div 4096 * 4096 + (V div 64) mod 64 * 64 + V mod 64 = V"
proof -
  define q d m r where "q = V div 64" and "d = q div 64" and "m = q mod 64" and "r = V mod 64"
  have a: "V div 4096 = d" by (simp add: q_def d_def div_mult2_eq)
  have 1: "q = d * 64 + m" by (simp add: d_def m_def)
  have 2: "V = q * 64 + r" by (simp add: q_def r_def)
  have "d * 4096 + m * 64 + r = V" using 1 2 by linarith
  then show ?thesis unfolding a unfolding q_def d_def m_def r_def .
qed

lemma split262144:
  "(V::nat) div 262144 * 262144 + (V div 4096) mod 64 * 4096 + (V div 64) mod 64 * 64 + V mod 64 = V"
proof -
  define q d m where "q = V div 4096" and "d = q div 64" and "m = q mod 64"
  define t where "t = (V div 64) mod 64 * 64 + V mod 64"
  have a: "V div 262144 = d" by (simp add: q_def d_def div_mult2_eq)
  have 1: "q = d * 64 + m" by (simp add: d_def m_def)
  have 2: "V = q * 4096 + t" using split4096 [of V] by (simp add: q_def t_def)
  have "d * 262144 + m * 4096 + t = V" using 1 2 by linarith
  then show ?thesis unfolding a unfolding q_def d_def m_def t_def by simp
qed

lemma escape_append:
  "escape b @ Y = 0x25 # hexDigit (b div 16) # hexDigit (b mod 16) # Y"
  by (simp add: escape_def)

lemma escapes_escaped:
  "(\<And>b. b \<in> set bs \<Longrightarrow> b < 256) \<Longrightarrow>
     escapes (length bs) (concat (map escape bs) @ X) = Some bs"
proof (induction bs)
  case Nil
  then show ?case by simp
next
  case (Cons b bs)
  from Cons.prems [of b] have b: "b < 256" by simp
  from Cons have "escapes (length bs) (concat (map escape bs) @ X) = Some bs" by simp
  with b show ?case by (simp add: escape_append hexByte_escape)
qed

lemma length_escaped: "length (concat (map escape bs)) = 3 * length bs"
  by (induction bs) (simp_all add: escape_def)

lemma drop_escaped: "drop (3 * length bs) (concat (map escape bs) @ X) = X"
  by (simp add: length_escaped)

lemma decode_ascii_escape:
  "B < 128 \<Longrightarrow> decodeURIComponent (escape B @ X) = prepend [of_nat B] (decodeURIComponent X)"
  by (simp add: escape_append hexByte_escape leadingOnes_def)

lemma decode_multi_escape:
  assumes b0: "b0 < 256" and bs: "\<And>b. b \<in> set bs \<Longrightarrow> b < 256"
    and lead: "leadingOnes b0 = Suc (length bs)" and n: "1 \<le> length bs" "length bs \<le> 3"
    and dec: "utf8Decode (b0 # bs) = Some V"
  shows "decodeURIComponent (concat (map escape (b0 # bs)) @ X) =
     prepend (utf16Encode V) (decodeURIComponent X)"
proof -
  have e: "escapes (leadingOnes b0 - 1) (concat (map escape bs) @ X) = Some bs"
    using escapes_escaped [of bs X] bs lead by simp
  have d: "drop (3 * (leadingOnes b0 - 1)) (concat (map escape bs) @ X) = X"
    using drop_escaped [of bs X] lead by simp
  have l: "leadingOnes b0 \<noteq> 0" "leadingOnes b0 \<noteq> 1" "\<not> 4 < leadingOnes b0"
    using lead n by auto
  have h: "hexByte (hexDigit (b0 div 16)) (hexDigit (b0 mod 16)) = Some b0"
    using b0 by (rule hexByte_escape)
  have "decodeURIComponent (0x25 # hexDigit (b0 div 16) # hexDigit (b0 mod 16) #
          (concat (map escape bs) @ X)) = prepend (utf16Encode V) (decodeURIComponent X)"
    using h l e d dec by (simp del: drop_append)
  then show ?thesis by (simp add: escape_append)
qed

lemma utf8_roundtrip:
  assumes "128 \<le> V" and "V < 1114112" and "\<not> (55296 \<le> V \<and> V \<le> 57343)"
  shows "\<exists>b0 bs. utf8Encode V = b0 # bs \<and> b0 < 256 \<and> (\<forall>b \<in> set bs. 128 \<le> b \<and> b < 256) \<and>
     128 \<le> b0 \<and> leadingOnes b0 = Suc (length bs) \<and> 1 \<le> length bs \<and> length bs \<le> 3 \<and>
     utf8Decode (b0 # bs) = Some V"
proof -
  consider "V < 2048" | "2048 \<le> V" "V < 65536" | "65536 \<le> V" by linarith
  then show ?thesis
  proof cases
    case 1
    then have d: "V div 64 < 32" by simp
    have "V mod 64 < 64" by simp
    then have m: "V mod 64 < 128" by linarith
    have v: "V div 64 * 64 + V mod 64 = V" by simp
    from assms(1) have d2: "2 \<le> V div 64" by simp
    have enc: "utf8Encode V = [192 + V div 64, 128 + V mod 64]"
      using assms(1) 1 by (simp add: utf8Encode_def)
    have dec: "utf8Decode [192 + V div 64, 128 + V mod 64] = Some V"
      using d m v assms(1) by (simp add: utf8Decode_def continuation_def)
    have lead: "leadingOnes (192 + V div 64) = 2"
      using d by (simp add: leadingOnes_def)
    show ?thesis using enc dec lead d m by simp
  next
    case 2
    then have d: "V div 4096 < 16" by simp
    have "V mod 64 < 64" "(V div 64) mod 64 < 64" by simp_all
    then have m: "V mod 64 < 128" "(V div 64) mod 64 < 128" by linarith+
    have v: "V div 4096 * 4096 + (V div 64) mod 64 * 64 + V mod 64 = V" by (rule split4096)
    have enc: "utf8Encode V = [224 + V div 4096, 128 + (V div 64) mod 64, 128 + V mod 64]"
      using 2 by (simp add: utf8Encode_def)
    have dec: "utf8Decode [224 + V div 4096, 128 + (V div 64) mod 64, 128 + V mod 64] = Some V"
      using d m v 2 assms(3) by (simp add: utf8Decode_def continuation_def)
    have lead: "leadingOnes (224 + V div 4096) = 3"
      using d by (simp add: leadingOnes_def)
    show ?thesis using enc dec lead d m by simp
  next
    case 3
    from assms(2) have d: "V div 262144 < 8" by simp
    have "V mod 64 < 64" "(V div 64) mod 64 < 64" "(V div 4096) mod 64 < 64" by simp_all
    then have m: "V mod 64 < 128" "(V div 64) mod 64 < 128" "(V div 4096) mod 64 < 128"
      by linarith+
    have v: "V div 262144 * 262144 + (V div 4096) mod 64 * 4096 + (V div 64) mod 64 * 64 +
        V mod 64 = V" by (rule split262144)
    have enc: "utf8Encode V = [240 + V div 262144, 128 + (V div 4096) mod 64,
        128 + (V div 64) mod 64, 128 + V mod 64]"
      using 3 by (simp add: utf8Encode_def)
    have dec: "utf8Decode [240 + V div 262144, 128 + (V div 4096) mod 64,
        128 + (V div 64) mod 64, 128 + V mod 64] = Some V"
      using d m v 3 assms(2) by (simp add: utf8Decode_def continuation_def)
    have lead: "leadingOnes (240 + V div 262144) = 4"
      using d by (simp add: leadingOnes_def)
    show ?thesis using enc dec lead d m by simp
  qed
qed

lemma decode_plus: "decodeURIComponent (plus_to_space (js ''+'' @ Y)) = prepend [0x20] (decodeURIComponent (plus_to_space Y))"
  by (simp add: js_pct20)

lemma utf16Encode_bmp: "V < 65536 \<Longrightarrow> utf16Encode V = [of_nat V]"
  by (simp add: utf16Encode_def)

lemma roundtrip_code_point:
  assumes "V < 1114112" and "\<not> (55296 \<le> V \<and> V \<le> 57343)"
  shows "decodeURIComponent (plus_to_space (pct20_to_plus (concat (map escape (utf8Encode V)) @ e))) =
     prepend (utf16Encode V) (decodeURIComponent (plus_to_space (pct20_to_plus e)))"
proof (cases "V < 128")
  case True
  then have enc: "concat (map escape (utf8Encode V)) = escape V"
    by (simp add: utf8Encode_def)
  from True have V: "V < 256" by simp
  show ?thesis
  proof (cases "V = 32")
    case True
    have "pct20_to_plus (escape V @ e) = js ''+'' @ pct20_to_plus e"
      using replaceAll_escape [OF V, of e] True by simp
    then show ?thesis
      unfolding enc using True decode_plus [of "pct20_to_plus e"] by (simp add: utf16Encode_def)
  next
    case False
    have "pct20_to_plus (escape V @ e) = escape V @ pct20_to_plus e"
      using replaceAll_escape [OF V, of e] False by simp
    then have "plus_to_space (pct20_to_plus (escape V @ e)) = escape V @ plus_to_space (pct20_to_plus e)"
      using p2s_escape [OF V] by simp
    then show ?thesis
      unfolding enc using \<open>V < 128\<close> decode_ascii_escape [of V "plus_to_space (pct20_to_plus e)"]
      by (simp add: utf16Encode_def)
  qed
next
  case False
  then have "128 \<le> V" by simp
  from utf8_roundtrip [OF this assms] obtain b0 bs where
    u: "utf8Encode V = b0 # bs" "b0 < 256" "\<forall>b \<in> set bs. 128 \<le> b \<and> b < 256" "128 \<le> b0"
      "leadingOnes b0 = Suc (length bs)" "1 \<le> length bs" "length bs \<le> 3"
      "utf8Decode (b0 # bs) = Some V"
    by blast
  have "\<And>b. b \<in> set (b0 # bs) \<Longrightarrow> b < 256 \<and> b \<noteq> 32"
    using u(2,3,4) by auto
  from replaceAll_escapes [OF this, of "b0 # bs" e]
  have "plus_to_space (pct20_to_plus (concat (map escape (b0 # bs)) @ e)) = concat (map escape (b0 # bs)) @ plus_to_space (pct20_to_plus e)"
    by blast
  moreover have "decodeURIComponent (concat (map escape (b0 # bs)) @ plus_to_space (pct20_to_plus e)) =
      prepend (utf16Encode V) (decodeURIComponent (plus_to_space (pct20_to_plus e)))"
    using u by (intro decode_multi_escape) auto
  ultimately show ?thesis unfolding u(1) by simp
qed

lemma prepend_simps [simp]: "prepend S (Inr X) = Inr (S @ X)" "prepend S (Inl err) = Inl err"
  by (simp_all add: prepend_def)

lemma surrogate_pair_value:
  assumes "isLeadSurrogate c" "isTrailSurrogate d"
  defines "V \<equiv> (unat c - 55296) * 1024 + (unat d - 56320) + 65536"
  shows "V < 1114112" "\<not> (55296 \<le> V \<and> V \<le> 57343)" "utf16Encode V = [c, d]"
proof -
  define a b where "a = unat c - 55296" and "b = unat d - 56320"
  have a: "a < 1024" "unat c = 55296 + a"
    using assms(1) unfolding a_def isLeadSurrogate_def by linarith+
  have b: "b < 1024" "unat d = 56320 + b"
    using assms(2) unfolding b_def isTrailSurrogate_def by linarith+
  have V: "V = a * 1024 + b + 65536" by (simp add: V_def a_def b_def)
  show "V < 1114112" using a(1) b(1) V by linarith
  show "\<not> (55296 \<le> V \<and> V \<le> 57343)" using V by linarith
  have "(V - 65536) div 1024 = a" "(V - 65536) mod 1024 = b"
    using b(1) V by simp_all
  then have "utf16Encode V = [of_nat (unat c), of_nat (unat d)]"
    using V a(2) b(2) by (simp add: utf16Encode_def)
  then show "utf16Encode V = [c, d]" by simp
qed

lemma encodeURIComponent_roundtrip:
  "wellFormed s \<Longrightarrow>
     \<exists>e. encodeURIComponent s = Inr e \<and> decodeURIComponent (plus_to_space (pct20_to_plus e)) = Inr s"
proof (induction s rule: wellFormed.induct)
  case 1
  show ?case by simp
next
  case (2 c cs)
  show ?case
  proof (cases "uriUnreserved c")
    case True
    note u = unreserved_facts [OF True]
    from 2 u obtain e where
      e: "encodeURIComponent cs = Inr e" "decodeURIComponent (plus_to_space (pct20_to_plus e)) = Inr cs"
      by auto
    have "encodeURIComponent (c # cs) = Inr (c # e)" using True e(1) by simp
    moreover have "decodeURIComponent (plus_to_space (pct20_to_plus (c # e))) = Inr (c # cs)"
      using replaceAll_unreserved [OF True, of e] u e(2) by simp
    ultimately show ?thesis by blast
  next
    case False
    note nu = this
    from "2.prems" have nt: "\<not> isTrailSurrogate c" by (simp split: if_splits)
    show ?thesis
    proof (cases "isLeadSurrogate c")
      case False
      with nt have v: "unat c < 1114112" "\<not> (55296 \<le> unat c \<and> unat c \<le> 57343)"
        using unsigned_less [of c, where 'a = nat]
        by (auto simp: isLeadSurrogate_def isTrailSurrogate_def)
      have lt: "unat c < 65536" using unsigned_less [of c, where 'a = nat] by simp
      from 2 nt False obtain e where
        e: "encodeURIComponent cs = Inr e" "decodeURIComponent (plus_to_space (pct20_to_plus e)) = Inr cs"
        by auto
      have "encodeURIComponent (c # cs) = Inr (concat (map escape (utf8Encode (unat c))) @ e)"
        using nu nt False e(1) by simp
      moreover have "decodeURIComponent (plus_to_space (pct20_to_plus (concat (map escape (utf8Encode (unat c))) @ e)))
          = Inr (c # cs)"
        using roundtrip_code_point [OF v, of e] e(2) lt by (simp add: utf16Encode_bmp)
      ultimately show ?thesis by blast
    next
      case True
      with "2.prems" nt obtain d ds where
        cs: "cs = d # ds" and d: "isTrailSurrogate d" and wf: "wellFormed ds"
        by (auto split: list.splits)
      from 2(1) [OF nt True cs] d wf obtain e where
        e: "encodeURIComponent ds = Inr e" "decodeURIComponent (plus_to_space (pct20_to_plus e)) = Inr ds"
        by auto
      define V where "V = (unat c - 55296) * 1024 + (unat d - 56320) + 65536"
      note sv = surrogate_pair_value [OF True d, folded V_def]
      have "encodeURIComponent (c # cs) = Inr (concat (map escape (utf8Encode V)) @ e)"
        using nu nt True cs d e(1) by (simp add: V_def)
      moreover have "decodeURIComponent (plus_to_space (pct20_to_plus (concat (map escape (utf8Encode V)) @ e)))
          = Inr (c # cs)"
        using roundtrip_code_point [OF sv(1,2), of e] e(2) sv(3) cs by simp
      ultimately show ?thesis by blast
    qed
  qed
qed

lemma encodeURIComponent_ill_formed:
  "\<not> wellFormed s \<Longrightarrow> encodeURIComponent s = Inl URIError"
proof (induction s rule: wellFormed.induct)
  case 1
  then show ?case by simp
next
  case (2 c cs)
  show ?case
  proof (cases "uriUnreserved c")
    case True
    note u = unreserved_facts [OF True]
    with 2 have "encodeURIComponent cs = Inl URIError" by auto
    with True show ?thesis by simp
  next
    case False
    note nu = this
    show ?thesis
    proof (cases "isTrailSurrogate c")
      case True
      with nu show ?thesis by simp
    next
      case False
      note nt = this
      show ?thesis
      proof (cases "isLeadSurrogate c")
        case False
        with 2 nt have "encodeURIComponent cs = Inl URIError" by auto
        with nu nt False show ?thesis by simp
      next
        case True
        show ?thesis
        proof (cases cs)
          case Nil
          with nu nt True show ?thesis by simp
        next
          case (Cons d ds)
          show ?thesis
          proof (cases "isTrailSurrogate d")
            case False
            with nu nt True Cons show ?thesis by simp
          next
            case td: True
            with "2.prems" nt True Cons have "\<not> wellFormed ds" by simp
            with 2(1) [OF nt True Cons] have "encodeURIComponent ds = Inl URIError" by simp
            with nu nt True Cons td show ?thesis by simp
          qed
        qed
      qed
    qed
  qed
qed

lemma encode_decode_roundtrip:
  "(wellFormed s \<longrightarrow> (\<exists>e. encode s = Inr e \<and> decode e = Inr s)) \<and>
   (\<not> wellFormed s \<longrightarrow> encode s = Inl URIError)"
  using encodeURIComponent_roundtrip [of s] encodeURIComponent_ill_formed [of s]
  by (auto simp: encode_def decode_def)

lemma plain_simps [simp]:
  "plain []" "plain (a @ b) \<longleftrightarrow> plain a \<and> plain b"
  "plain (c # s) \<longleftrightarrow> c \<noteq> 0x3D \<and> c \<noteq> 0x26 \<and> c \<noteq> 0x3F \<and> c \<noteq> 0x23 \<and> plain s"
  by (auto simp: plain_def)

lemma hexDigit_plain: "d < 16 \<Longrightarrow> plain [hexDigit d]"
proof -
  assume d: "d < 16"
  have "unat (hexDigit d) \<noteq> unat (0x3D :: char16) \<and> unat (hexDigit d) \<noteq> unat (0x26 :: char16) \<and>
      unat (hexDigit d) \<noteq> unat (0x3F :: char16) \<and> unat (hexDigit d) \<noteq> unat (0x23 :: char16)"
    using d by (simp add: unat_hexDigit)
  then show ?thesis by auto
qed

lemma escape_plain: "B < 256 \<Longrightarrow> plain (escape B)"
  using hexDigit_plain [of "B div 16"] hexDigit_plain [of "B mod 16"]
  by (simp add: escape_def)

lemma escapes_plain: "(\<And>b. b \<in> set bs \<Longrightarrow> b < 256) \<Longrightarrow> plain (concat (map escape bs))"
  by (induction bs) (simp_all add: escape_plain)

lemma utf8Encode_bytes: "V < 1114112 \<Longrightarrow> b \<in> set (utf8Encode V) \<Longrightarrow> b < 256"
proof -
  assume V: "V < 1114112" and b: "b \<in> set (utf8Encode V)"
  have "V mod 64 < 64" "(V div 64) mod 64 < 64" "(V div 4096) mod 64 < 64" by simp_all
  then have m: "V mod 64 < 128" "(V div 64) mod 64 < 128" "(V div 4096) mod 64 < 128"
    by linarith+
  have d: "V < 2048 \<Longrightarrow> V div 64 < 32" "V < 65536 \<Longrightarrow> V div 4096 < 16" "V div 262144 < 8"
    using V by simp_all
  from b m d show ?thesis
    by (auto simp: utf8Encode_def split: if_splits)
qed

lemma unreserved_plain: "uriUnreserved c \<Longrightarrow> plain [c]"
proof -
  assume u: "uriUnreserved c"
  have "unat c \<noteq> unat (0x3D :: char16) \<and> unat c \<noteq> unat (0x26 :: char16) \<and>
      unat c \<noteq> unat (0x3F :: char16) \<and> unat c \<noteq> unat (0x23 :: char16)"
    using u by (auto simp: uriUnreserved_def Let_def)
  then show ?thesis by auto
qed

lemma encodeURIComponent_plain:
  "encodeURIComponent s = Inr e \<Longrightarrow> plain e \<and> (s \<noteq> [] \<longrightarrow> e \<noteq> [])"
proof (induction s arbitrary: e rule: wellFormed.induct)
  case 1
  then show ?case by simp
next
  case (2 c cs)
  show ?case
  proof (cases "uriUnreserved c")
    case True
    with "2.prems" obtain e' where e': "encodeURIComponent cs = Inr e'" "e = c # e'"
      by (cases "encodeURIComponent cs") auto
    note u = unreserved_facts [OF True]
    from 2(2) [OF _ _ e'(1)] u have "plain e'" by simp
    with e'(2) unreserved_plain [OF True] show ?thesis by simp
  next
    case False
    note nu = this
    from "2.prems" nu have nt: "\<not> isTrailSurrogate c" by (auto split: if_splits)
    show ?thesis
    proof (cases "isLeadSurrogate c")
      case False
      with "2.prems" nu nt obtain e' where
        e': "encodeURIComponent cs = Inr e'"
          "e = concat (map escape (utf8Encode (unat c))) @ e'"
        by (cases "encodeURIComponent cs") auto
      from 2(2) [OF nt False e'(1)] have p: "plain e'" by simp
      have "unat c < 1114112" using unsigned_less [of c, where 'a = nat] by simp
      then have "plain (concat (map escape (utf8Encode (unat c))))"
        by (intro escapes_plain) (rule utf8Encode_bytes)
      moreover have "concat (map escape (utf8Encode (unat c))) \<noteq> []"
        by (simp add: utf8Encode_def escape_def)
      ultimately show ?thesis using p e'(2) by simp
    next
      case True
      with "2.prems" nu nt obtain d ds e' where
        cs: "cs = d # ds" and d: "isTrailSurrogate d" and
        e': "encodeURIComponent ds = Inr e'"
          "e = concat (map escape (utf8Encode
                 ((unat c - 55296) * 1024 + (unat d - 56320) + 65536))) @ e'"
        by (cases cs; cases "encodeURIComponent (tl cs)") (auto split: if_splits)
      from 2(1) [OF nt True cs e'(1)] have p: "plain e'" by simp
      note sv = surrogate_pair_value [OF True d]
      have "plain (concat (map escape (utf8Encode
                 ((unat c - 55296) * 1024 + (unat d - 56320) + 65536))))"
        using sv(1) by (intro escapes_plain) (rule utf8Encode_bytes)
      moreover have "concat (map escape (utf8Encode
                 ((unat c - 55296) * 1024 + (unat d - 56320) + 65536))) \<noteq> []"
        by (simp add: utf8Encode_def escape_def)
      ultimately show ?thesis using p e'(2) by simp
    qed
  qed
qed

lemma replaceAll_plain: "plain e \<Longrightarrow> plain (pct20_to_plus e) \<and> (e \<noteq> [] \<longrightarrow> pct20_to_plus e \<noteq> [])"
proof (induction e rule: length_induct)
  case (1 e)
  show ?case
  proof (cases e)
    case Nil
    then show ?thesis by simp
  next
    case (Cons c cs)
    show ?thesis
    proof (cases "take (length (js ''%20'')) (c # cs) = js ''%20''")
      case True
      have "plain (drop (length (js ''%20'') - 1) cs)"
        using "1.prems" Cons by (auto simp: plain_def dest: in_set_dropD)
      moreover have "length (drop (length (js ''%20'') - 1) cs) < length e" using Cons by simp
      ultimately have "plain (pct20_to_plus (drop (length (js ''%20'') - 1) cs))" using 1(1) by blast
      with True Cons show ?thesis by (simp add: js_pct20)
    next
      case False
      from "1.prems" Cons have "plain cs" by simp
      moreover have "length cs < length e" using Cons by simp
      ultimately have "plain (pct20_to_plus cs)" using 1(1) by blast
      with False Cons "1.prems" show ?thesis by simp
    qed
  qed
qed

lemma encode_plain: "encode s = Inr e \<Longrightarrow> plain e \<and> (s \<noteq> [] \<longrightarrow> e \<noteq> [])"
  using encodeURIComponent_plain replaceAll_plain
  by (fastforce simp: encode_def split: sum.splits)

lemma plain_keyChars: "plain s \<Longrightarrow> takeWhile keyChar s = s \<and> takeWhile valChar s = s"
  by (induction s) (simp_all add: keyChar_def valChar_def)

lemma tryKey_pair:
  assumes k: "k \<noteq> []" and v: "v \<noteq> []" "plain v"
  shows "length k \<le> n \<Longrightarrow> tryKey n (k @ 0x3D # v) = Some (k @ 0x3D # v)"
proof (induction n)
  case 0
  with k show ?case by simp
next
  case (Suc n)
  obtain v0 vs where vv: "v = v0 # vs" using v(1) by (cases v) auto
  show ?case
  proof (cases "Suc n = length k")
    case True
    then have d: "drop (Suc n) (k @ 0x3D # v) = 0x3D # v0 # vs"
      and t: "take (Suc (Suc n)) (k @ 0x3D # v) = k @ [0x3D]"
      using vv by simp_all
    have "valChar v0" "takeWhile valChar (v0 # vs) = v0 # vs"
      using v(2) plain_keyChars [of v] vv by (simp_all add: valChar_def)
    then show ?thesis
      unfolding tryKey.simps d t using vv by simp
  next
    case False
    with Suc.prems have le: "length k \<le> n" by simp
    then have d: "drop (Suc n) (k @ 0x3D # v) = drop (n - length k) v"
      by (simp add: Suc_diff_le)
    have "tryKey (Suc n) (k @ 0x3D # v) = tryKey n (k @ 0x3D # v)"
    proof (cases "drop (n - length k) v")
      case Nil
      then show ?thesis unfolding tryKey.simps d by simp
    next
      case (Cons e r)
      then have "e \<in> set v" by (metis in_set_dropD list.set_intros(1))
      with v(2) have "e \<noteq> 0x3D" by (auto simp: plain_def)
      with Cons show ?thesis unfolding tryKey.simps d by (cases r) simp_all
    qed
    with Suc.IH [OF le] show ?thesis by simp
  qed
qed

lemma matchAll_pair:
  assumes "k \<noteq> []" "plain k" "v \<noteq> []" "plain v"
  shows "matchAll (k @ 0x3D # v) = [k @ 0x3D # v]"
proof -
  obtain c cs where s: "k @ 0x3D # v = c # cs" using assms(1) by (cases k) auto
  have "keyChar 0x3D" by (simp add: keyChar_def)
  then have tw: "takeWhile keyChar (k @ 0x3D # v) = k @ 0x3D # v"
    using plain_keyChars [OF assms(2)] plain_keyChars [OF assms(4)]
    by (metis takeWhile_append2 takeWhile.simps(2) takeWhile_eq_all_conv)
  have "matchAt (k @ 0x3D # v) = Some (k @ 0x3D # v)"
    unfolding matchAt_def tw by (rule tryKey_pair [OF assms(1,3,4)]) simp
  then have "matchAt (c # cs) = Some (c # cs)" using s by simp
  then have "matchAll (c # cs) = [c # cs]" by simp
  then show ?thesis using s by simp
qed

lemma matchAll_join:
  "list_all2 pair_of segs m \<Longrightarrow> matchAll (join [0x26] segs) = segs"
proof (induction segs arbitrary: m)
  case Nil
  then show ?case by simp
next
  case (Cons seg segs)
  from Cons.prems obtain kv m' where m: "m = kv # m'" "pair_of seg kv" "list_all2 pair_of segs m'"
    by (cases m) auto
  from m(2) have one: "matchAll seg = [seg]"
    by (auto simp: pair_of_def matchAll_pair)
  show ?case
  proof (cases segs)
    case Nil
    with one show ?thesis by simp
  next
    case (Cons q qs)
    then have "join [0x26] (seg # segs) = seg @ 0x26 # join [0x26] segs" by simp
    with one Cons.IH [OF m(3)] show ?thesis by (simp add: matchAll_amp del: matchAll.simps)
  qed
qed

lemma split_no_sep: "sep \<notin> set s \<Longrightarrow> split sep s = [s]"
  by (induction s) auto

lemma split_pair: "sep \<notin> set k \<Longrightarrow> sep \<notin> set v \<Longrightarrow> split sep (k @ sep # v) = [k, v]"
  by (induction k) (auto simp: split_no_sep)

subsection \<open>The state that a hash is read back to\<close>

lemma parseHash_prefix_own: "parseHash_prefix p (p @ h) = h"
proof (cases "p = []")
  case True
  then show ?thesis by (simp add: parseHash_prefix_def)
next
  case False
  then show ?thesis by (rule parseHash_prefix_at_front)
qed

lemma parseHash_own_prefix:
  "parseHash env (Some (hashPrefix env @ s)) = parseParams (matchAll s) []"
  by (simp add: parseHash_def parseHash_prefix_own)

lemma parseHash_behind_lead:
  assumes "lead = [] \<or> lead = js ''#''"
  shows "parseHash env (Some (lead @ hashPrefix env @ s)) = parseParams (matchAll s) []"
proof (cases "lead = []")
  case True
  then show ?thesis by (simp add: parseHash_own_prefix)
next
  case False
  with assms have l: "lead = [0x23]" by (simp add: js_chars)
  show ?thesis
  proof (cases "hashPrefix env = []")
    case True
    then show ?thesis
      unfolding l by (simp add: parseHash_def parseHash_prefix_def matchAt_def)
  next
    case False
    then show ?thesis
      unfolding l
      by (simp add: parseHash_def parseHash_prefix_behind_hash matchAll_behind_hash
            del: matchAll.simps)
  qed
qed

lemma doubled_eq_behind: "0x3D \<notin> set k \<Longrightarrow> doubled_eq (k @ X) = doubled_eq X"
proof (induction k)
  case Nil
  then show ?case by simp
next
  case (Cons a k)
  then show ?case by (cases "k @ X") auto
qed

lemma doubled_eq_pair:
  assumes "0x3D \<notin> set ek" "0x3D \<notin> set ev" "R = [] \<or> (\<exists>J. R = 0x26 # J \<and> \<not> doubled_eq J)"
  shows "\<not> doubled_eq (ek @ 0x3D # ev @ R)"
proof -
  have r: "\<not> doubled_eq R"
    using assms(3) doubled_eq_behind [of "[0x26]"] by auto
  have "doubled_eq (ek @ 0x3D # ev @ R) = doubled_eq (0x3D # ev @ R)"
    using assms(1) by (rule doubled_eq_behind)
  also have "\<dots> = doubled_eq (ev @ R)"
  proof (cases "ev @ R")
    case Nil
    then show ?thesis by simp
  next
    case (Cons c cs)
    have "c \<noteq> 0x3D"
    proof (cases ev)
      case Nil
      with Cons assms(3) show ?thesis by auto
    next
      case (Cons e es)
      with \<open>ev @ R = c # cs\<close> assms(2) show ?thesis by auto
    qed
    with Cons show ?thesis by simp
  qed
  also have "\<dots> = doubled_eq R"
    using assms(2) by (rule doubled_eq_behind)
  finally show ?thesis using r by simp
qed

lemma createHash_pairs_plain:
  "createHash_pairs m = Inr segs \<Longrightarrow>
     \<forall>seg \<in> set segs. \<exists>ek ev. seg = ek @ 0x3D # ev \<and> plain ek \<and> plain ev"
proof (induction m arbitrary: segs)
  case Nil
  then show ?case by simp
next
  case (Cons kv m)
  obtain k v where kv: "kv = (k, v)" by (cases kv) auto
  show ?case
  proof (cases "isValue v")
    case False
    with Cons kv show ?thesis by simp
  next
    case True
    with Cons.prems kv obtain ek ev segs' where
      e: "encode k = Inr ek" "encode (toString v) = Inr ev" "createHash_pairs m = Inr segs'"
        "segs = (ek @ js ''='' @ ev) # segs'"
      by (auto split: sum.splits)
    from encode_plain [OF e(1)] encode_plain [OF e(2)] have "plain ek" "plain ev" by simp_all
    with Cons.IH [OF e(3)] e(4) show ?thesis by (auto simp: js_chars)
  qed
qed

lemma join_plain_pairs:
  "\<forall>seg \<in> set segs. \<exists>ek ev. seg = ek @ 0x3D # ev \<and> plain ek \<and> plain ev \<Longrightarrow>
     0x23 \<notin> set (join [0x26] segs) \<and> \<not> doubled_eq (join [0x26] segs)"
proof (induction segs)
  case Nil
  then show ?case by simp
next
  case (Cons p ps)
  from Cons.prems obtain ek ev where p: "p = ek @ 0x3D # ev" "plain ek" "plain ev" by auto
  show ?case
  proof (cases ps)
    case Nil
    from p(2,3) have "\<not> doubled_eq (ek @ 0x3D # ev @ [])"
      by (intro doubled_eq_pair) (simp_all add: plain_def)
    with p Nil show ?thesis by (simp add: plain_def)
  next
    case (Cons q qs)
    from Cons.IH Cons.prems
    have ih: "0x23 \<notin> set (join [0x26] ps)" "\<not> doubled_eq (join [0x26] ps)"
      by simp_all
    from p(2,3) ih(2) have "\<not> doubled_eq (ek @ 0x3D # ev @ 0x26 # join [0x26] ps)"
      by (intro doubled_eq_pair) (simp_all add: plain_def)
    with p ih(1) Cons show ?thesis by (simp add: plain_def)
  qed
qed

lemma createHash_shape:
  assumes "createHash m = Inr h"
  shows "0x23 \<notin> set h \<and> \<not> doubled_eq h"
proof -
  from assms obtain segs where s: "createHash_pairs m = Inr segs" "h = join [0x26] segs"
    by (auto simp: createHash_def js_chars split: sum.splits)
  from join_plain_pairs [OF createHash_pairs_plain [OF s(1)]] s(2) show ?thesis by simp
qed

lemma parseHash_prefix_drop: "0x23 \<notin> set h \<Longrightarrow> \<exists>n. parseHash_prefix p h = drop n h"
proof (cases h)
  case Nil
  then show ?thesis by (simp add: parseHash_prefix_def)
next
  case (Cons c cs)
  assume "0x23 \<notin> set h"
  with Cons have c: "c \<noteq> 0x23" by auto
  show ?thesis
  proof (cases "p \<noteq> [] \<and> take (length p) h = p")
    case True
    with Cons have "parseHash_prefix p h = drop (length p) h"
      by (simp add: parseHash_prefix_def)
    then show ?thesis by blast
  next
    case False
    with Cons c have "parseHash_prefix p h = drop 0 h"
      by (auto simp: parseHash_prefix_def Let_def js_chars)
    then show ?thesis by blast
  qed
qed

lemma parseHash_no_empty:
  assumes nd: "\<not> doubled_eq (parseHash_prefix (hashPrefix env) h)"
    and p: "parseHash env (Some h) = Inr ps"
  shows "get_prop ps k \<noteq> Str []"
proof -
  from p have pp: "parseParams (matchAll (parseHash_prefix (hashPrefix env) h)) [] = Inr ps"
    by (simp add: parseHash_def)
  have "map_of ps k \<noteq> Some (Str [])"
  proof (rule parseParams_no_empty [OF pp])
    fix m assume "m \<in> set (matchAll (parseHash_prefix (hashPrefix env) h))"
    from matchAll_members [OF nd this] split_second_nonempty
    show "\<exists>p0 p1 qs. split 0x3D m = p0 # p1 # qs \<and> p1 \<noteq> []" by blast
  qed simp
  then show ?thesis by (auto simp: get_prop_def split: option.splits)
qed

lemma matchAll_empty_pair:
  assumes "0x3D \<notin> set key"
  shows "matchAll (key @ js ''='') = []"
    and "matchAll (key @ js ''=&'' @ rest) = matchAll rest"
    and "matchAll (a @ js ''&'' @ key @ js ''='') = matchAll a"
    and "matchAll (a @ js ''&'' @ key @ js ''=&'' @ rest) = matchAll (a @ js ''&'' @ rest)"
proof -
  show 1: "matchAll (key @ js ''='') = []"
    using assms by (simp add: js_chars matchAll_key_only)
  show 2: "matchAll (key @ js ''=&'' @ rest) = matchAll rest"
    using assms matchAll_amp [of "key @ [0x3D]" rest] by (simp add: js_chars matchAll_key_only)
  show "matchAll (a @ js ''&'' @ key @ js ''='') = matchAll a"
    using 1 matchAll_amp [of a "key @ js ''=''"] by (simp add: js_chars)
  show "matchAll (a @ js ''&'' @ key @ js ''=&'' @ rest) = matchAll (a @ js ''&'' @ rest)"
    using 2 matchAll_amp [of a "key @ js ''=&'' @ rest"] matchAll_amp [of a rest]
    by (simp add: js_chars)
qed

lemma assign_string_keys:
  "js ''__proto__'' \<notin> fst ` set ps \<Longrightarrow> js ''__proto__'' \<notin> fst ` set (assign_string ps key v)"
  using dom_update [of key "Str v" ps]
  by (auto simp: assign_string_def set_prop_def dom_map_of_conv_image_fst)

lemma parseParams_keys:
  "parseParams ms ps = Inr r \<Longrightarrow> js ''__proto__'' \<notin> fst ` set ps \<Longrightarrow>
     js ''__proto__'' \<notin> fst ` set r"
proof (induction ms arbitrary: ps)
  case Nil
  then show ?case by simp
next
  case (Cons m ms)
  from Cons.prems(1) obtain key v where
    step: "parseParams ms (assign_string ps key v) = Inr r"
    by (auto simp: Let_def split: sum.splits)
  from Cons.IH [OF step assign_string_keys [OF Cons.prems(2)]] show ?case .
qed

lemma parseHash_keys: "parseHash env h = Inr ns \<Longrightarrow> js ''__proto__'' \<notin> fst ` set ns"
  unfolding parseHash_def Let_def by (erule parseParams_keys) simp

lemma parseParams_pairs:
  "list_all2 pair_of segs m \<Longrightarrow> distinct (map fst (ps @ m)) \<Longrightarrow>
   js ''__proto__'' \<notin> fst ` set m \<Longrightarrow> parseParams segs ps = Inr (ps @ m)"
proof (induction segs arbitrary: m ps)
  case Nil
  then show ?case by simp
next
  case (Cons seg segs)
  from Cons.prems(1) obtain kv m' where
    m: "m = kv # m'" "pair_of seg kv" "list_all2 pair_of segs m'"
    by (cases m) auto
  obtain k v where kv: "kv = (k, v)" by (cases kv) auto
  from m(2) kv obtain ek ev w where
    seg: "seg = ek @ 0x3D # ev" "v = Str w" "plain ek" "plain ev"
      "decode ek = Inr k" "decode ev = Inr w"
    by (auto simp: pair_of_def)
  have sp: "split 0x3D seg = [ek, ev]"
    using seg(1,3,4) by (simp add: split_pair plain_def)
  from Cons.prems(2) m(1) kv have fresh: "k \<notin> fst ` set ps" by auto
  from Cons.prems(3) m(1) kv have np: "k \<noteq> js ''__proto__''"
    and np': "js ''__proto__'' \<notin> fst ` set m'" by auto
  have d: "distinct (map fst ((ps @ [(k, Str w)]) @ m'))"
    using Cons.prems(2) m(1) kv by simp
  have "parseParams (seg # segs) ps = parseParams segs (assign_string ps k w)"
    using sp seg(5,6) by (simp add: at_index_def decode_param_def)
  also have "\<dots> = parseParams segs (ps @ [(k, Str w)])"
    using fresh np by (simp add: assign_string_def set_prop_def update_fresh)
  also have "\<dots> = Inr ((ps @ [(k, Str w)]) @ m')"
    by (rule Cons.IH [OF m(3) d np'])
  finally show ?case using m(1) kv seg(2) by simp
qed

lemma createHash_pairs_shape:
  "(\<And>k v. (k, v) \<in> set m \<Longrightarrow> k \<noteq> [] \<and> wellFormed k \<and>
        (\<exists>w. v = Str w \<and> w \<noteq> [] \<and> wellFormed w)) \<Longrightarrow>
     \<exists>segs. createHash_pairs m = Inr segs \<and> list_all2 pair_of segs m"
proof (induction m)
  case Nil
  then show ?case by simp
next
  case (Cons kv m)
  obtain k v where kv: "kv = (k, v)" by (cases kv) auto
  from Cons.prems [of k v] kv obtain w where
    k: "k \<noteq> []" "wellFormed k" and w: "v = Str w" "w \<noteq> []" "wellFormed w"
    by auto
  from encode_decode_roundtrip [of k] k(2) obtain ek where ek: "encode k = Inr ek" "decode ek = Inr k" by blast
  from encode_decode_roundtrip [of w] w(3) obtain ev where ev: "encode w = Inr ev" "decode ev = Inr w" by blast
  from encode_plain [OF ek(1)] k(1) have pk: "plain ek" "ek \<noteq> []" by simp_all
  from encode_plain [OF ev(1)] w(2) have pv: "plain ev" "ev \<noteq> []" by simp_all
  from Cons.IH Cons.prems obtain segs where
    segs: "createHash_pairs m = Inr segs" "list_all2 pair_of segs m"
    by auto
  have "createHash_pairs (kv # m) = Inr ((ek @ 0x3D # ev) # segs)"
    using kv w(1) ek(1) ev(1) segs(1) by (simp add: js_chars)
  moreover have "pair_of (ek @ 0x3D # ev) kv"
    unfolding pair_of_def using kv w(1) ek(2) ev(2) pk pv by auto
  ultimately show ?case using segs(2) by simp
qed

lemma parseHash_prefix_absent:
  assumes "0x23 \<notin> set h" and "p = [] \<or> take (length p) h \<noteq> p"
  shows "parseHash_prefix p h = h"
proof (cases h)
  case Nil
  then show ?thesis by (simp add: parseHash_prefix_def)
next
  case (Cons c cs)
  with assms(1) have c: "c \<noteq> 0x23" by auto
  with Cons assms(2) show ?thesis
    by (auto simp: parseHash_prefix_def Let_def js_chars)
qed

lemma parseHash_roundtrip:
  assumes p: "parseHash env (Some f) = Inr m"
    and sh: "\<forall>(k, v) \<in> set m. k \<noteq> [] \<and> wellFormed k \<and> (\<exists>w. v = Str w \<and> w \<noteq> [] \<and> wellFormed w)"
  shows "\<exists>h. createHash m = Inr h \<and> parseHash env (Some (hashPrefix env @ h)) = Inr m \<and>
     (hashPrefix env = [] \<or> take (length (hashPrefix env)) h \<noteq> hashPrefix env \<longrightarrow>
        parseHash env (Some h) = Inr m)"
proof -
  from sh have "\<And>k v. (k, v) \<in> set m \<Longrightarrow> k \<noteq> [] \<and> wellFormed k \<and>
        (\<exists>w. v = Str w \<and> w \<noteq> [] \<and> wellFormed w)" by auto
  from createHash_pairs_shape [OF this] obtain segs where
    segs: "createHash_pairs m = Inr segs" "list_all2 pair_of segs m"
    by blast
  define h where "h = join [0x26] segs"
  have h: "createHash m = Inr h"
    using segs(1) by (simp add: createHash_def js_chars h_def)
  have pp: "parseParams (matchAll h) [] = Inr m"
    using parseParams_pairs [OF segs(2), of "[]"] parseHash_distinct [OF p] parseHash_keys [OF p]
    by (simp only: h_def matchAll_join [OF segs(2)]) simp
  have a: "parseHash env (Some (hashPrefix env @ h)) = Inr m"
    using pp by (simp add: parseHash_own_prefix)
  have b: "parseHash env (Some h) = Inr m"
    if "hashPrefix env = [] \<or> take (length (hashPrefix env)) h \<noteq> hashPrefix env"
  proof -
    from createHash_shape [OF h] have "0x23 \<notin> set h" by simp
    from parseHash_prefix_absent [OF this that] pp show ?thesis by (simp add: parseHash_def)
  qed
  from h a b show ?thesis by blast
qed

lemma parseHash_proto:
  "parseHash \<lparr>GlobalEnv_state = [], fragment = [], hashPrefix = []\<rparr>
     (Some (js ''__proto__=x&a=1'')) = Inr [(js ''a'', Str (js ''1''))]"
  by code_simp

lemmas codec_defs = encode_def js_def uriUnreserved_def isTrailSurrogate_def
  isLeadSurrogate_def utf8Encode_def escape_def hexDigit_def createHash_def

text \<open>
  C9, as stated, fails. \<open>encodeURIComponent\<close> raises \<open>URIError\<close> on a string with an
  unpaired surrogate, so \<open>encode\<close> has no result to decode for the one-unit string
  \<open>"\uD800"\<close>; a fragment that holds this code unit raw, in a value or in a key, is
  decoded, and the decoded state cannot be encoded again. Nor is every pair of a decoded fragment kept when the
  state is encoded and decoded again: \<open>a==b\<close> is decoded to \<open>{a: ""}\<close>, encoded as \<open>a=\<close>
  and that is decoded to \<open>{}\<close>; \<open>=a=b\<close> is decoded to \<open>{"": "a"}\<close>, encoded as \<open>=a\<close>, and
  that is decoded to \<open>{}\<close>; and with the prefix \<open>a\<close>, \<open>aa=1\<close> is decoded to \<open>{a: "1"}\<close>,
  encoded as \<open>a=1\<close>, which begins with the prefix and is decoded to \<open>{}\<close>.
\<close>

theorem decode_does_not_invert_encode_counterexample:
  "encode [0xD800] = Inl URIError \<and>
   parseHash \<lparr>GlobalEnv_state = [], fragment = [], hashPrefix = []\<rparr> (Some [0x61, 0x3D, 0xD800])
     = Inr [(js ''a'', Str [0xD800])] \<and>
   createHash [(js ''a'', Str [0xD800])] = Inl URIError \<and>
   parseHash \<lparr>GlobalEnv_state = [], fragment = [], hashPrefix = []\<rparr> (Some [0xD800, 0x3D, 0x61])
     = Inr [([0xD800], Str (js ''a''))] \<and>
   createHash [([0xD800], Str (js ''a''))] = Inl URIError \<and>
   parseHash \<lparr>GlobalEnv_state = [], fragment = [], hashPrefix = []\<rparr> (Some (js ''a==b''))
     = Inr [(js ''a'', Str [])] \<and>
   createHash [(js ''a'', Str [])] = Inr (js ''a='') \<and>
   parseHash \<lparr>GlobalEnv_state = [], fragment = [], hashPrefix = []\<rparr> (Some (js ''a=''))
     = Inr [] \<and>
   parseHash \<lparr>GlobalEnv_state = [], fragment = [], hashPrefix = []\<rparr> (Some (js ''=a=b''))
     = Inr [([], Str (js ''a''))] \<and>
   createHash [([], Str (js ''a''))] = Inr (js ''=a'') \<and>
   parseHash \<lparr>GlobalEnv_state = [], fragment = [], hashPrefix = []\<rparr> (Some (js ''=a''))
     = Inr [] \<and>
   parseHash \<lparr>GlobalEnv_state = [], fragment = [], hashPrefix = js ''a''\<rparr> (Some (js ''aa=1''))
     = Inr [(js ''a'', Str (js ''1''))] \<and>
   createHash [(js ''a'', Str (js ''1''))] = Inr (js ''a=1'') \<and>
   parseHash \<lparr>GlobalEnv_state = [], fragment = [], hashPrefix = js ''a''\<rparr> (Some (js ''a=1''))
     = Inr []"
proof -
  let ?e0 = "\<lparr>GlobalEnv_state = [], fragment = [], hashPrefix = []\<rparr>"
  let ?ea = "\<lparr>GlobalEnv_state = [], fragment = [], hashPrefix = js ''a''\<rparr>"
  have 1: "encode [0xD800] = Inl URIError"
    by (simp add: encode_def uriUnreserved_def isTrailSurrogate_def isLeadSurrogate_def)
  have 2: "parseHash ?e0 (Some [0x61, 0x3D, 0xD800]) = Inr [(js ''a'', Str [0xD800])]"
    by code_simp
  have 3: "createHash [(js ''a'', Str [0xD800])] = Inl URIError"
    by (simp add: codec_defs)
  have 13: "parseHash ?e0 (Some [0xD800, 0x3D, 0x61]) = Inr [([0xD800], Str (js ''a''))]"
    by code_simp
  have 14: "createHash [([0xD800], Str (js ''a''))] = Inl URIError"
    by (simp add: codec_defs)
  have 4: "parseHash ?e0 (Some (js ''a==b'')) = Inr [(js ''a'', Str [])]"
    by code_simp
  have 5: "createHash [(js ''a'', Str [])] = Inr (js ''a='')"
    by code_simp
  have 6: "parseHash ?e0 (Some (js ''a='')) = Inr []"
    by code_simp
  have 7: "parseHash ?e0 (Some (js ''=a=b'')) = Inr [([], Str (js ''a''))]"
    by code_simp
  have 8: "createHash [([], Str (js ''a''))] = Inr (js ''=a'')"
    by code_simp
  have 9: "parseHash ?e0 (Some (js ''=a'')) = Inr []"
    by code_simp
  have 10: "parseHash ?ea (Some (js ''aa=1'')) = Inr [(js ''a'', Str (js ''1''))]"
    by code_simp
  have 11: "createHash [(js ''a'', Str (js ''1''))] = Inr (js ''a=1'')"
    by code_simp
  have 12: "parseHash ?ea (Some (js ''a=1'')) = Inr []"
    by code_simp
  show ?thesis
    by (intro conjI) (fact 1 2 3 4 5 6 7 8 9 10 11 12 13 14)+
qed

text \<open>
  C9, amended. For every well-formed string \<open>s\<close>, \<open>encode(s)\<close> returns and
  \<open>decode(encode(s)) = s\<close>; on every other string \<open>encode\<close> raises \<open>URIError\<close>.
  Consequently, when a fragment is decoded to a state whose keys and values are all
  non-empty and well-formed, the state can be encoded, and the hash is decoded to the
  same state, pair for pair: behind the prefix, as \<open>setHash\<close> and \<open>replaceHash\<close>
  write it, with any prefix; and as it is, when no prefix is set or the hash does not
  begin with the prefix.
\<close>

theorem decode_inverts_encode:
  "(wellFormed s \<longrightarrow> (\<exists>e. encode s = Inr e \<and> decode e = Inr s)) \<and>
   (\<not> wellFormed s \<longrightarrow> encode s = Inl URIError) \<and>
   (parseHash env (Some f) = Inr m \<and>
    (\<forall>(k, v) \<in> set m. k \<noteq> [] \<and> wellFormed k \<and> (\<exists>w. v = Str w \<and> w \<noteq> [] \<and> wellFormed w)) \<longrightarrow>
      (\<exists>h. createHash m = Inr h \<and> parseHash env (Some (hashPrefix env @ h)) = Inr m \<and>
         (hashPrefix env = [] \<or> take (length (hashPrefix env)) h \<noteq> hashPrefix env \<longrightarrow>
            parseHash env (Some h) = Inr m)))"
  using encode_decode_roundtrip [of s] parseHash_roundtrip [of env f m] by blast

theorem decode_inverts_encode_witness:
  "encode (js ''a b'') = Inr (js ''a+b'') \<and> decode (js ''a+b'') = Inr (js ''a b'') \<and>
   encode [0xDC00] = Inl URIError \<and>
   parseHash \<lparr>GlobalEnv_state = [], fragment = [], hashPrefix = js ''!''\<rparr>
       (Some (js ''#!a=1+2&junk'')) = Inr [(js ''a'', Str (js ''1 2''))] \<and>
   createHash [(js ''a'', Str (js ''1 2''))] = Inr (js ''a=1+2'') \<and>
   parseHash \<lparr>GlobalEnv_state = [], fragment = [], hashPrefix = js ''!''\<rparr>
       (Some (js ''!a=1+2'')) = Inr [(js ''a'', Str (js ''1 2''))] \<and>
   parseHash \<lparr>GlobalEnv_state = [], fragment = [], hashPrefix = js ''!''\<rparr>
       (Some (js ''a=1+2'')) = Inr [(js ''a'', Str (js ''1 2''))]"
proof -
  let ?env = "\<lparr>GlobalEnv_state = [], fragment = [], hashPrefix = js ''!''\<rparr>"
  let ?m = "[(js ''a'', Str (js ''1 2''))]"
  have w1: "wellFormed (js ''a b'')"
    by (simp add: js_def isTrailSurrogate_def isLeadSurrogate_def)
  have w2: "\<not> wellFormed [0xDC00]"
    by (simp add: isTrailSurrogate_def)
  have e1: "encode (js ''a b'') = Inr (js ''a+b'')"
    by (simp add: codec_defs)
  have c1: "createHash ?m = Inr (js ''a=1+2'')"
    by (simp add: codec_defs)
  have p0: "parseHash ?env (Some (js ''#!a=1+2&junk'')) = Inr ?m"
    by code_simp
  have sh: "\<forall>(k, v) \<in> set ?m. k \<noteq> [] \<and> wellFormed k \<and> (\<exists>w. v = Str w \<and> w \<noteq> [] \<and> wellFormed w)"
    by (simp add: js_def isTrailSurrogate_def isLeadSurrogate_def)
  have pf: "hashPrefix ?env @ js ''a=1+2'' = js ''!a=1+2''"
    and np: "take (length (hashPrefix ?env)) (js ''a=1+2'') \<noteq> hashPrefix ?env"
    by (simp_all add: js_def)
  from w1 e1 decode_inverts_encode [of "js ''a b''"]
  have d1: "decode (js ''a+b'') = Inr (js ''a b'')" by force
  from w2 decode_inverts_encode [of "[0xDC00]"]
  have e2: "encode [0xDC00] = Inl URIError" by blast
  from p0 sh decode_inverts_encode [of _ ?env "js ''#!a=1+2&junk''" ?m]
  obtain h where h: "createHash ?m = Inr h" "parseHash ?env (Some (hashPrefix ?env @ h)) = Inr ?m"
      "hashPrefix ?env = [] \<or> take (length (hashPrefix ?env)) h \<noteq> hashPrefix ?env \<longrightarrow>
         parseHash ?env (Some h) = Inr ?m"
    by blast
  from h(1) c1 have hh: "h = js ''a=1+2''" by simp
  from h(2) have p1: "parseHash ?env (Some (js ''!a=1+2'')) = Inr ?m"
    unfolding hh pf .
  from h(3) np have p2: "parseHash ?env (Some (js ''a=1+2'')) = Inr ?m"
    unfolding hh by blast
  from e1 d1 e2 p0 c1 p1 p2 show ?thesis by blast
qed

subsection \<open>Empty values\<close>

text \<open>
  C10, as stated, fails: the first group of \<open>_REGEX_HASH\<close> may hold \<open>=\<close>, so \<open>a==b\<close>
  is one match, \<open>split('=')\<close> cuts it into \<open>a\<close>, the empty string and \<open>b\<close>, and the key
  \<open>a\<close> is bound to the empty string; in the same way the pair \<open>a==\<close>, whose last \<open>=\<close> is
  followed by nothing, binds \<open>a\<close> to the empty string.
\<close>

theorem parseHash_binds_empty_string_counterexample:
  "parseHash \<lparr>GlobalEnv_state = [], fragment = [], hashPrefix = []\<rparr> (Some (js ''a==b''))
     = Inr [(js ''a'', Str [])] \<and>
   parseHash \<lparr>GlobalEnv_state = [], fragment = [], hashPrefix = []\<rparr> (Some (js ''a==''))
     = Inr [(js ''a'', Str [])]"
  by code_simp

text \<open>
  C10, amended. A pair \<open>key=\<close> whose key holds no \<open>=\<close> and whose \<open>=\<close> is followed by
  \<open>&\<close> or by the end of the string is dropped, wherever it stands behind the prefix,
  with or without a \<open>#\<close> before the prefix: the fragment is decoded as it is without
  the pair. When the fragment, once the prefix is
  stripped, has no \<open>=\<close> directly followed by another \<open>=\<close>, the decoded state binds no key
  to the empty string. And no hash that \<open>createHash\<close> returns is decoded to a state
  with an empty string, with or without the prefix before it and whatever the prefix
  is: an empty string as a value does not survive the round trip.
\<close>

theorem parseHash_empty_value_needs_doubled_eq:
  "(0x3D \<notin> set key \<and> (lead = [] \<or> lead = js ''#'') \<longrightarrow>
      parseHash env (Some (lead @ hashPrefix env @ key @ js ''='')) = Inr [] \<and>
      parseHash env (Some (lead @ hashPrefix env @ key @ js ''=&'' @ rest)) =
        parseHash env (Some (lead @ hashPrefix env @ rest)) \<and>
      parseHash env (Some (lead @ hashPrefix env @ a @ js ''&'' @ key @ js ''='')) =
        parseHash env (Some (lead @ hashPrefix env @ a)) \<and>
      parseHash env (Some (lead @ hashPrefix env @ a @ js ''&'' @ key @ js ''=&'' @ rest)) =
        parseHash env (Some (lead @ hashPrefix env @ a @ js ''&'' @ rest))) \<and>
   (\<not> doubled_eq (parseHash_prefix (hashPrefix env) h) \<and> parseHash env (Some h) = Inr ps \<longrightarrow>
      get_prop ps k \<noteq> Str []) \<and>
   (createHash m = Inr h \<and> parseHash env (Some h) = Inr ps \<longrightarrow> get_prop ps k \<noteq> Str []) \<and>
   (createHash m = Inr h \<and> parseHash env (Some (hashPrefix env @ h)) = Inr ps \<longrightarrow>
      get_prop ps k \<noteq> Str [])"
proof -
  have 1: "parseHash env (Some (lead @ hashPrefix env @ key @ js ''='')) = Inr [] \<and>
      parseHash env (Some (lead @ hashPrefix env @ key @ js ''=&'' @ rest)) =
        parseHash env (Some (lead @ hashPrefix env @ rest)) \<and>
      parseHash env (Some (lead @ hashPrefix env @ a @ js ''&'' @ key @ js ''='')) =
        parseHash env (Some (lead @ hashPrefix env @ a)) \<and>
      parseHash env (Some (lead @ hashPrefix env @ a @ js ''&'' @ key @ js ''=&'' @ rest)) =
        parseHash env (Some (lead @ hashPrefix env @ a @ js ''&'' @ rest))"
    if k: "0x3D \<notin> set key" and l: "lead = [] \<or> lead = js ''#''"
    by (simp only: parseHash_behind_lead [OF l] matchAll_empty_pair [OF k]) simp
  have 2: "get_prop ps k \<noteq> Str []"
    if "\<not> doubled_eq (parseHash_prefix (hashPrefix env) h)" "parseHash env (Some h) = Inr ps"
    using that by (rule parseHash_no_empty)
  have 3: "get_prop ps k \<noteq> Str []"
    if c: "createHash m = Inr h" and p: "parseHash env (Some h) = Inr ps"
  proof -
    from createHash_shape [OF c] have s: "0x23 \<notin> set h" "\<not> doubled_eq h" by simp_all
    from parseHash_prefix_drop [OF s(1)] obtain n where
      "parseHash_prefix (hashPrefix env) h = drop n h" by blast
    with doubled_eq_drop [OF s(2)] have "\<not> doubled_eq (parseHash_prefix (hashPrefix env) h)"
      by simp
    from parseHash_no_empty [OF this p] show ?thesis .
  qed
  have 4: "get_prop ps k \<noteq> Str []"
    if c: "createHash m = Inr h" and p: "parseHash env (Some (hashPrefix env @ h)) = Inr ps"
  proof -
    from createHash_shape [OF c] have s: "\<not> doubled_eq h" by simp
    from s have "\<not> doubled_eq (parseHash_prefix (hashPrefix env) (hashPrefix env @ h))"
      by (simp add: parseHash_prefix_own)
    from parseHash_no_empty [OF this p] show ?thesis .
  qed
  from 1 2 3 4 show ?thesis by blast
qed

theorem parseHash_empty_value_needs_doubled_eq_witness:
  "parseHash \<lparr>GlobalEnv_state = [], fragment = [], hashPrefix = js ''!''\<rparr>
       (Some (js ''#!key='')) = Inr [] \<and>
   parseHash \<lparr>GlobalEnv_state = [], fragment = [], hashPrefix = js ''!''\<rparr>
       (Some (js ''#!a=1&key=&b=2''))
     = parseHash \<lparr>GlobalEnv_state = [], fragment = [], hashPrefix = js ''!''\<rparr>
       (Some (js ''#!a=1&b=2'')) \<and>
   (parseHash \<lparr>GlobalEnv_state = [], fragment = [], hashPrefix = []\<rparr> (Some (js ''a=1&b=''))
      = Inr [(js ''a'', Str (js ''1''))] \<and>
    get_prop [(js ''a'', Str (js ''1''))] (js ''b'') \<noteq> Str []) \<and>
   (createHash [(js ''a'', Str [])] = Inr (js ''a='') \<and>
    parseHash \<lparr>GlobalEnv_state = [], fragment = [], hashPrefix = []\<rparr> (Some (js ''a=''))
      = Inr [] \<and>
    parseHash \<lparr>GlobalEnv_state = [], fragment = [], hashPrefix = js ''!''\<rparr>
        (Some (js ''!a='')) = Inr [] \<and>
    get_prop [] (js ''a'') \<noteq> Str [])"
proof -
  let ?e0 = "\<lparr>GlobalEnv_state = [], fragment = [], hashPrefix = []\<rparr>"
  let ?e1 = "\<lparr>GlobalEnv_state = [], fragment = [], hashPrefix = js ''!''\<rparr>"
  have q: "0x3D \<notin> set (js ''key'')"
    by (simp add: js_def)
  have e1: "js ''#'' @ hashPrefix ?e1 @ js ''key'' @ js ''='' = js ''#!key=''"
    and e2: "js ''#'' @ hashPrefix ?e1 @ js ''a=1'' @ js ''&'' @ js ''key'' @ js ''=&'' @ js ''b=2''
        = js ''#!a=1&key=&b=2''"
    and e3: "js ''#'' @ hashPrefix ?e1 @ js ''a=1'' @ js ''&'' @ js ''b=2'' = js ''#!a=1&b=2''"
    by (simp_all add: js_def)
  have d: "\<not> doubled_eq (parseHash_prefix (hashPrefix ?e0) (js ''a=1&b=''))"
    by code_simp
  have p: "parseHash ?e0 (Some (js ''a=1&b='')) = Inr [(js ''a'', Str (js ''1''))]"
    by code_simp
  have c: "createHash [(js ''a'', Str [])] = Inr (js ''a='')"
    by code_simp
  have r: "parseHash ?e0 (Some (js ''a='')) = Inr []"
    by code_simp
  note t = parseHash_empty_value_needs_doubled_eq
    [where key = "js ''key''" and lead = "js ''#''" and env = ?e1 and a = "js ''a=1''"
       and rest = "js ''b=2''"]
  from q t
  have w1: "parseHash ?e1 (Some (js ''#'' @ hashPrefix ?e1 @ js ''key'' @ js ''='')) = Inr []"
    by blast
  from q t have w2:
    "parseHash ?e1 (Some (js ''#'' @ hashPrefix ?e1 @ js ''a=1'' @ js ''&'' @ js ''key'' @
        js ''=&'' @ js ''b=2''))
      = parseHash ?e1 (Some (js ''#'' @ hashPrefix ?e1 @ js ''a=1'' @ js ''&'' @ js ''b=2''))"
    by blast
  from d p parseHash_empty_value_needs_doubled_eq
    [where env = ?e0 and h = "js ''a=1&b=''" and ps = "[(js ''a'', Str (js ''1''))]"
       and k = "js ''b''"]
  have w3: "get_prop [(js ''a'', Str (js ''1''))] (js ''b'') \<noteq> Str []"
    by blast
  from c r parseHash_empty_value_needs_doubled_eq
    [where env = ?e0 and h = "js ''a=''" and ps = "[]" and m = "[(js ''a'', Str [])]"
       and k = "js ''a''"]
  have w4: "get_prop [] (js ''a'') \<noteq> Str []"
    by blast
  have e4: "hashPrefix ?e1 @ js ''a='' = js ''!a=''"
    by (simp add: js_def)
  have r1: "parseHash ?e1 (Some (hashPrefix ?e1 @ js ''a='')) = Inr []"
    unfolding e4 by code_simp
  from c r1 parseHash_empty_value_needs_doubled_eq
    [where env = ?e1 and h = "js ''a=''" and ps = "[]" and m = "[(js ''a'', Str [])]"
       and k = "js ''a''"]
  have w5: "get_prop [] (js ''a'') \<noteq> Str []"
    by blast
  from r1 have r2: "parseHash ?e1 (Some (js ''!a='')) = Inr []"
    unfolding e4 .
  from w1 w2 w3 w4 w5 p c r r2 show ?thesis
    unfolding e1 e2 e3 by blast
qed

end
